theory Spec2Isabelle
  imports Main "HOL-Library.Word" "HOL-Library.Signed_Division"
begin

unbundle bit_operations_syntax

section \<open>Memory: fixed buffers with checked access\<close>

text \<open>
  A C character array is a list of cells. A cell of a local array that has not been
  written yet holds no value (\<open>None\<close>). A store or a load outside the array, and a load of
  a cell that was never written, have no defined behaviour in C; here they are the
  results \<open>Inl OutOfBounds\<close> and \<open>Inl Uninitialised\<close>. A pointer into the array is its
  offset from the start of the array, an \<open>int\<close>: the converters step one cell before
  the start of the array without dereferencing there.
\<close>

datatype fault = OutOfBounds | Uninitialised

type_synonym buffer = "char option list"

definition NUL :: char where
  "NUL = CHR 0x00"

definition bindr :: "fault + 'a \<Rightarrow> ('a \<Rightarrow> fault + 'b) \<Rightarrow> fault + 'b" where
  "bindr r f = (case r of Inl e \<Rightarrow> Inl e | Inr x \<Rightarrow> f x)"

definition store :: "buffer \<Rightarrow> int \<Rightarrow> char \<Rightarrow> fault + buffer" where
  "store buf p c =
     (if 0 \<le> p \<and> p < int (length buf) then Inr (buf[nat p := Some c]) else Inl OutOfBounds)"

definition load :: "buffer \<Rightarrow> int \<Rightarrow> fault + char" where
  "load buf p =
     (if 0 \<le> p \<and> p < int (length buf)
      then (case buf ! nat p of None \<Rightarrow> Inl Uninitialised | Some c \<Rightarrow> Inr c)
      else Inl OutOfBounds)"

text \<open>
  The bytes that \<open>write(fd, s, strlen(s))\<close> reads: the cells from \<open>p\<close> up to, and not
  including, the first null byte.
\<close>

function c_str :: "buffer \<Rightarrow> int \<Rightarrow> fault + string" where
  "c_str buf p =
     (if 0 \<le> p \<and> p < int (length buf)
      then (case buf ! nat p of
              None \<Rightarrow> Inl Uninitialised
            | Some c \<Rightarrow>
                if c = NUL then Inr []
                else (case c_str buf (p + 1) of Inl e \<Rightarrow> Inl e | Inr s \<Rightarrow> Inr (c # s)))
      else Inl OutOfBounds)"
  by pat_completeness auto
termination
  by (relation "measure (\<lambda>(buf, p). nat (int (length buf) - p))") auto

section \<open>Machine arithmetic\<close>

text \<open>
  \<open>int32_t\<close> is a 32-bit word read as two's complement. C's \<open>/\<close> and \<open>%\<close> on it truncate
  towards zero. Negating \<open>INT32_MIN\<close> overflows, which C leaves undefined; the model
  takes the two's complement result, \<open>INT32_MIN\<close> again. \<open>time_t\<close> is a 64-bit signed
  value, \<open>uint64_t\<close> and \<open>uintptr_t\<close> are 64-bit words (an LP64 target), \<open>int\<close> has 32 bits.
\<close>

type_synonym int32_t = "32 word"
type_synonym uint64_t = "64 word"
type_synonym uintptr_t = "64 word"
type_synonym time_t = "64 word"

definition INT32_MIN :: int32_t where
  "INT32_MIN = 0x80000000"

definition c_div32 :: "int32_t \<Rightarrow> int32_t \<Rightarrow> int32_t" where
  "c_div32 a b = word_of_int (sint a sdiv sint b)"

definition c_mod32 :: "int32_t \<Rightarrow> int32_t \<Rightarrow> int32_t" where
  "c_mod32 a b = word_of_int (sint a smod sint b)"

section \<open>Numeric converters\<close>

subsection \<open>\<open>minimal_itoa_for_signals\<close>\<close>

function minimal_digits :: "int32_t \<Rightarrow> buffer \<Rightarrow> int \<Rightarrow> int \<Rightarrow> fault + (buffer \<times> int)" where
  "minimal_digits val buf p p_end =
     (if 0 <s val \<and> p < p_end
      then (case store buf p (char_of (sint (c_mod32 val 10) + 48)) of
              Inl e \<Rightarrow> Inl e
            | Inr buf' \<Rightarrow> minimal_digits (c_div32 val 10) buf' (p + 1) p_end)
      else Inr (buf, p))"
  by pat_completeness auto
termination
  by (relation "measure (\<lambda>(val, buf, p, p_end). nat (p_end - p))") auto

function reverse_loop :: "buffer \<Rightarrow> int \<Rightarrow> int \<Rightarrow> fault + buffer" where
  "reverse_loop buf p1 p2 =
     (if p1 < p2
      then (case load buf p1 of
              Inl e \<Rightarrow> Inl e
            | Inr tmp \<Rightarrow>
                (case load buf p2 of
                   Inl e \<Rightarrow> Inl e
                 | Inr c2 \<Rightarrow>
                     (case store buf p1 c2 of
                        Inl e \<Rightarrow> Inl e
                      | Inr buf1 \<Rightarrow>
                          (case store buf1 p2 tmp of
                             Inl e \<Rightarrow> Inl e
                           | Inr buf2 \<Rightarrow> reverse_loop buf2 (p1 + 1) (p2 - 1)))))
      else Inr buf)"
  by pat_completeness auto
termination
  by (relation "measure (\<lambda>(buf, p1, p2). nat (p2 - p1))") auto

text \<open>
  The part of \<open>minimal_itoa_for_signals\<close> after the sign: \<open>b\<close> is the local pointer
  \<open>buf\<close> (the start of the digits) and \<open>buf_size\<close> the space left from there.
\<close>

definition minimal_tail :: "int32_t \<Rightarrow> buffer \<Rightarrow> int \<Rightarrow> int \<Rightarrow> fault + (buffer \<times> int)" where
  "minimal_tail val buf b buf_size =
     (let p_end = b + buf_size - 1 in
      bindr (minimal_digits val buf b p_end) (\<lambda>(buf1, p).
      bindr (if p = b \<and> p < p_end
             then bindr (store buf1 p CHR ''0'') (\<lambda>buf2. Inr (buf2, p + 1))
             else Inr (buf1, p)) (\<lambda>(buf2, p).
      bindr (store buf2 p NUL) (\<lambda>buf3.
      bindr (reverse_loop buf3 b (p - 1)) (\<lambda>buf4. Inr (buf4, p))))))"

text \<open>The result is the buffer and the returned pointer, which is the end of the text;
  the text itself starts at offset 0.\<close>

definition minimal_itoa_for_signals :: "int32_t \<Rightarrow> buffer \<Rightarrow> int \<Rightarrow> fault + (buffer \<times> int)" where
  "minimal_itoa_for_signals val buf buf_size =
     (if buf_size < 2 then Inr (buf, 0)
      else if val = 0
      then bindr (store buf 0 CHR ''0'') (\<lambda>buf1.
           bindr (store buf1 1 NUL) (\<lambda>buf2. Inr (buf2, 1)))
      else if val <s 0
      then (if buf_size < 3 then Inr (buf, 0)
            else bindr (store buf 0 CHR ''-'') (\<lambda>buf1.
                 minimal_tail (- val) buf1 1 (buf_size - 1)))
      else minimal_tail val buf 0 buf_size)"

subsection \<open>\<open>simple_itoa\<close>\<close>

function itoa_loop :: "int32_t \<Rightarrow> buffer \<Rightarrow> int \<Rightarrow> fault + (buffer \<times> int)" where
  "itoa_loop val buf p =
     (if 0 <s val \<and> 0 \<le> p
      then (case store buf p (char_of (sint (c_mod32 val 10) + 48)) of
              Inl e \<Rightarrow> Inl e
            | Inr buf' \<Rightarrow> itoa_loop (c_div32 val 10) buf' (p - 1))
      else Inr (buf, p))"
  by pat_completeness auto
termination
  by (relation "measure (\<lambda>(val, buf, p). nat (p + 1))") auto

text \<open>The result is the buffer and the returned pointer, the start of the text.\<close>

definition simple_itoa :: "int32_t \<Rightarrow> buffer \<Rightarrow> int \<Rightarrow> fault + (buffer \<times> int)" where
  "simple_itoa val buf buf_len =
     (let p = buf_len - 1 in
      bindr (store buf p NUL) (\<lambda>buf0.
      let p = p - 1 in
      if val = 0 \<and> 0 < p
      then bindr (store buf0 p CHR ''0'') (\<lambda>buf1. Inr (buf1, (p - 1) + 1))
      else
        let sign = (val <s 0);
            val = (if sign then - val else val)
        in bindr (itoa_loop val buf0 p) (\<lambda>(buf1, p).
           if sign \<and> 0 \<le> p
           then bindr (store buf1 p CHR ''-'') (\<lambda>buf2. Inr (buf2, (p - 1) + 1))
           else Inr (buf1, p + 1))))"

subsection \<open>\<open>simple_ulltoa\<close>\<close>

function ulltoa_loop :: "uint64_t \<Rightarrow> buffer \<Rightarrow> int \<Rightarrow> fault + (buffer \<times> int)" where
  "ulltoa_loop val buf p =
     (if 0 < val \<and> 0 \<le> p
      then (case store buf p (char_of (unat (val mod 10 + 48))) of
              Inl e \<Rightarrow> Inl e
            | Inr buf' \<Rightarrow> ulltoa_loop (val div 10) buf' (p - 1))
      else Inr (buf, p))"
  by pat_completeness auto
termination
  by (relation "measure (\<lambda>(val, buf, p). nat (p + 1))") auto

definition simple_ulltoa :: "uint64_t \<Rightarrow> buffer \<Rightarrow> int \<Rightarrow> fault + (buffer \<times> int)" where
  "simple_ulltoa val buf buf_len =
     (let p = buf_len - 1 in
      bindr (store buf p NUL) (\<lambda>buf0.
      let p = p - 1 in
      if val = 0 \<and> 0 < p
      then bindr (store buf0 p CHR ''0'') (\<lambda>buf1. Inr (buf1, (p - 1) + 1))
      else bindr (ulltoa_loop val buf0 p) (\<lambda>(buf1, p). Inr (buf1, p + 1))))"

subsection \<open>\<open>simple_ptr_to_hex\<close>\<close>

definition hex_chars :: string where
  "hex_chars = ''0123456789abcdef''"

function hex_loop :: "uintptr_t \<Rightarrow> buffer \<Rightarrow> int \<Rightarrow> fault + (buffer \<times> int)" where
  "hex_loop val buf p =
     (if 0 < val \<and> 0 \<le> p
      then (case store buf p (hex_chars ! unat (val AND 0xF)) of
              Inl e \<Rightarrow> Inl e
            | Inr buf' \<Rightarrow> hex_loop (drop_bit 4 val) buf' (p - 1))
      else Inr (buf, p))"
  by pat_completeness auto
termination
  by (relation "measure (\<lambda>(val, buf, p). nat (p + 1))") auto

definition simple_ptr_to_hex :: "uintptr_t \<Rightarrow> buffer \<Rightarrow> int \<Rightarrow> fault + (buffer \<times> int)" where
  "simple_ptr_to_hex val buf buf_len =
     (let p = buf_len - 1 in
      bindr (store buf p NUL) (\<lambda>buf0.
      let p = p - 1 in
      bindr (if val = 0 \<and> 0 < p
             then bindr (store buf0 p CHR ''0'') (\<lambda>buf1. Inr (buf1, p - 1))
             else Inr (buf0, p)) (\<lambda>(buf1, p).
      bindr (hex_loop val buf1 p) (\<lambda>(buf2, p).
      bindr (if 0 < p
             then bindr (store buf2 p CHR ''x'') (\<lambda>buf3. Inr (buf3, p - 1))
             else Inr (buf2, p)) (\<lambda>(buf3, p).
      bindr (if 0 \<le> p
             then bindr (store buf3 p CHR ''0'') (\<lambda>buf4. Inr (buf4, p - 1))
             else Inr (buf3, p)) (\<lambda>(buf4, p). Inr (buf4, p + 1)))))))"

section \<open>The destination\<close>

text \<open>
  The destination is the environment of the program. How it treats the \<open>k\<close>-th call of
  \<open>write\<close> is its \<open>behaviour\<close>: it takes all the bytes, at most some number of them, or
  fails with \<open>-1\<close>. The \<open>log\<close> keeps every call in order: the bytes requested and the
  result returned. No assumption is made on the behaviour, so the model covers every
  sequence of results that \<open>write\<close> can return. \<open>synced\<close> counts the calls of \<open>fsync\<close>.
\<close>

datatype wbeh = Full | Partial nat | Failed

record sink =
  behaviour :: "nat \<Rightarrow> wbeh"
  log :: "(string \<times> int) list"
  synced :: nat

definition sys_write :: "int \<Rightarrow> sink \<Rightarrow> string \<Rightarrow> int \<times> sink" where
  "sys_write fd s bytes =
     (let r = (if fd < 0 then - 1
               else case behaviour s (length (log s)) of
                      Full \<Rightarrow> int (length bytes)
                    | Partial k \<Rightarrow> int (min k (length bytes))
                    | Failed \<Rightarrow> - 1)
      in (r, s\<lparr>log := log s @ [(bytes, r)]\<rparr>))"

definition fsync :: "int \<Rightarrow> sink \<Rightarrow> sink" where
  "fsync fd s = s\<lparr>synced := Suc (synced s)\<rparr>"

text \<open>The bytes that reached the destination, and the sum of the positive results.\<close>

definition emitted :: "(string \<times> int) list \<Rightarrow> string" where
  "emitted lg = concat (map (\<lambda>(bytes, r). take (nat r) bytes) lg)"

definition gain :: "(string \<times> int) list \<Rightarrow> int" where
  "gain lg = sum_list (map (\<lambda>(bytes, r). if 0 < r then r else 0) lg)"

section \<open>Primitive writers\<close>

type_synonym writer = "sink \<Rightarrow> fault + (int \<times> sink)"

definition write_literal :: "int \<Rightarrow> string \<Rightarrow> writer" where
  "write_literal fd str s = Inr (sys_write fd s str)"

definition write_int32_val :: "int \<Rightarrow> int32_t \<Rightarrow> writer" where
  "write_int32_val fd val s =
     bindr (simple_itoa val (replicate 12 None) 12) (\<lambda>(num_buf, str_val).
     bindr (c_str num_buf str_val) (\<lambda>bytes. Inr (sys_write fd s bytes)))"

definition write_uint64_val :: "int \<Rightarrow> uint64_t \<Rightarrow> writer" where
  "write_uint64_val fd val s =
     bindr (simple_ulltoa val (replicate 21 None) 21) (\<lambda>(num_buf, str_val).
     bindr (c_str num_buf str_val) (\<lambda>bytes. Inr (sys_write fd s bytes)))"

definition write_ptr_val :: "int \<Rightarrow> uintptr_t \<Rightarrow> writer" where
  "write_ptr_val fd val s =
     bindr (simple_ptr_to_hex val (replicate 19 None) 19) (\<lambda>(ptr_buf, str_val).
     bindr (c_str ptr_buf str_val) (\<lambda>bytes. Inr (sys_write fd s bytes)))"

section \<open>The report composer\<close>

text \<open>
  One statement \<open>res = w; if (res > 0) total_written += res;\<close> and a sequence of them.
  The state is the destination and \<open>total_written\<close>. The total is an \<open>int\<close> here; it
  never passes 4050 (lemma \<open>composer_log\<close>), so the 32-bit \<open>int\<close> of the source does not
  overflow.
\<close>

definition tally :: "writer \<Rightarrow> sink \<times> int \<Rightarrow> fault + (sink \<times> int)" where
  "tally w st =
     (case st of (s, total_written) \<Rightarrow>
        bindr (w s) (\<lambda>(res, s').
          Inr (s', if 0 < res then total_written + res else total_written)))"

fun tally_all :: "writer list \<Rightarrow> sink \<times> int \<Rightarrow> fault + (sink \<times> int)" where
  "tally_all [] st = Inr st"
| "tally_all (w # ws) st =
     (case tally w st of Inl e \<Rightarrow> Inl e | Inr st' \<Rightarrow> tally_all ws st')"

definition frame_at :: "uintptr_t list \<Rightarrow> int \<Rightarrow> fault + uintptr_t" where
  "frame_at frames i =
     (if 0 \<le> i \<and> i < int (length frames) then Inr (frames ! nat i) else Inl OutOfBounds)"

definition frame_writers :: "int \<Rightarrow> uintptr_t \<Rightarrow> writer list" where
  "frame_writers fd f =
     (if f \<noteq> 0
      then [write_literal fd ''  '', write_ptr_val fd f, write_literal fd ''\<newline>'']
      else [write_literal fd ''  0x0 (nil)\<newline>''])"

function frames_loop ::
  "int \<Rightarrow> uintptr_t list \<Rightarrow> int \<Rightarrow> int \<Rightarrow> sink \<times> int \<Rightarrow> fault + (sink \<times> int)" where
  "frames_loop fd frames frame_count i st =
     (if i < frame_count
      then (case frame_at frames i of
              Inl e \<Rightarrow> Inl e
            | Inr f \<Rightarrow>
                (case tally_all (frame_writers fd f) st of
                   Inl e \<Rightarrow> Inl e
                 | Inr st' \<Rightarrow>
                     if 4000 < snd st' then Inr st'
                     else frames_loop fd frames frame_count (i + 1) st'))
      else Inr st)"
  by pat_completeness auto
termination
  by (relation "measure (\<lambda>(fd, frames, frame_count, i, st). nat (frame_count - i))") auto

definition end_marker :: string where
  "end_marker = ''--- C Minimal Report End ---\<newline>''"

definition write_minimal_crash_info_c ::
  "int \<Rightarrow> int32_t \<Rightarrow> time_t \<Rightarrow> uint64_t \<Rightarrow> uintptr_t list \<Rightarrow> int32_t \<Rightarrow> sink
     \<Rightarrow> fault + (int \<times> sink)" where
  "write_minimal_crash_info_c fd signal_num timestamp thread_id frames frame_count s =
     (if fd < 0 then Inr (- 1, s)
      else
        bindr (tally_all
                 [write_literal fd ''Signal: '',
                  write_int32_val fd signal_num,
                  write_literal fd ''\<newline>Timestamp: '',
                  write_int32_val fd (ucast timestamp),
                  write_literal fd ''\<newline>ThreadID: '',
                  write_uint64_val fd thread_id,
                  write_literal fd ''\<newline>Frames_count: '',
                  write_int32_val fd frame_count,
                  write_literal fd ''\<newline>Frames (raw addresses):\<newline>'']
                 (s, 0)) (\<lambda>st.
        bindr (frames_loop fd frames (sint frame_count) 0 st) (\<lambda>st.
        bindr (tally (write_literal fd end_marker) st) (\<lambda>(s', total_written).
        Inr (if 0 < total_written then total_written else - 1, fsync fd s')))))"

section \<open>Reference texts and parsers\<close>

text \<open>
  What the converters are measured against: the shortest decimal text of a natural
  number and of an integer, the shortest lowercase hexadecimal text of a natural number,
  and strict parsers that read such texts back, most significant digit first. These are
  not part of the program.
\<close>

definition digit_char :: "nat \<Rightarrow> char" where
  "digit_char d = char_of (d + 48)"

function dec_nat :: "nat \<Rightarrow> string" where
  "dec_nat n = (if n < 10 then [digit_char n] else dec_nat (n div 10) @ [digit_char (n mod 10)])"
  by pat_completeness auto
termination
  by (relation "measure id") auto

definition dec_int :: "int \<Rightarrow> string" where
  "dec_int i = (if i < 0 then CHR ''-'' # dec_nat (nat (- i)) else dec_nat (nat i))"

function hex_nat :: "nat \<Rightarrow> string" where
  "hex_nat n = (if n < 16 then [hex_chars ! n] else hex_nat (n div 16) @ [hex_chars ! (n mod 16)])"
  by pat_completeness auto
termination
  by (relation "measure id") auto

definition is_digit :: "char \<Rightarrow> bool" where
  "is_digit c = (48 \<le> (of_char c :: nat) \<and> (of_char c :: nat) \<le> 57)"

fun parse_digits :: "nat \<Rightarrow> string \<Rightarrow> nat option" where
  "parse_digits acc [] = Some acc"
| "parse_digits acc (c # cs) =
     (if is_digit c then parse_digits (10 * acc + (of_char c - 48)) cs else None)"

definition parse_nat :: "string \<Rightarrow> nat option" where
  "parse_nat s = (if s = [] then None else parse_digits 0 s)"

definition parse_int :: "string \<Rightarrow> int option" where
  "parse_int s =
     (case s of
        [] \<Rightarrow> None
      | c # cs \<Rightarrow>
          if c = CHR ''-'' then map_option (\<lambda>n. - int n) (parse_nat cs)
          else map_option int (parse_nat s))"

definition hex_val :: "char \<Rightarrow> nat option" where
  "hex_val c =
     (let k = (of_char c :: nat) in
      if 48 \<le> k \<and> k \<le> 57 then Some (k - 48)
      else if 97 \<le> k \<and> k \<le> 102 then Some (k - 87)
      else None)"

fun parse_hex :: "nat \<Rightarrow> string \<Rightarrow> nat option" where
  "parse_hex acc [] = Some acc"
| "parse_hex acc (c # cs) =
     (case hex_val c of None \<Rightarrow> None | Some d \<Rightarrow> parse_hex (16 * acc + d) cs)"

text \<open>A 64-bit \<open>time_t\<close> reduced modulo \<open>2 ^ 32\<close> and read as a signed 32-bit value.\<close>

definition narrow32 :: "time_t \<Rightarrow> int" where
  "narrow32 t = (let m = uint t mod 2 ^ 32 in if m < 2 ^ 31 then m else m - 2 ^ 32)"

text \<open>The number of places where a pattern occurs in a text.\<close>

definition occurrences :: "string \<Rightarrow> string \<Rightarrow> nat" where
  "occurrences pat s =
     length (filter (\<lambda>i. take (length pat) (drop i s) = pat) [0..<Suc (length s)])"




section \<open>Auxiliary definitions\<close>

text \<open>
  The digits of a number in a base, least significant first: the order in which the
  loops of the converters produce them.
\<close>

function rdigits :: "nat \<Rightarrow> nat \<Rightarrow> nat list" where
  "rdigits b n = (if n = 0 \<or> b < 2 then [] else (n mod b) # rdigits b (n div b))"
  by pat_completeness auto
termination
  by (relation "measure snd") auto

text \<open>
  Storing a list of characters at \<open>p\<close>, \<open>p - 1\<close>, ... as long as \<open>p\<close> has not passed the
  start of the buffer, and at \<open>p\<close>, \<open>p + 1\<close>, ... as long as \<open>p\<close> is below \<open>p_end\<close>: the
  shape of every loop of the converters.
\<close>

fun put_down :: "char list \<Rightarrow> buffer \<Rightarrow> int \<Rightarrow> buffer \<times> int" where
  "put_down [] buf p = (buf, p)"
| "put_down (c # cs) buf p =
     (if 0 \<le> p then put_down cs (buf[nat p := Some c]) (p - 1) else (buf, p))"

fun put_up :: "char list \<Rightarrow> buffer \<Rightarrow> int \<Rightarrow> int \<Rightarrow> buffer \<times> int" where
  "put_up [] buf p p_end = (buf, p)"
| "put_up (c # cs) buf p p_end =
     (if p < p_end then put_up cs (buf[nat p := Some c]) (p + 1) p_end else (buf, p))"

definition finish :: "buffer \<times> int \<Rightarrow> buffer \<times> int" where
  "finish r = (fst r, snd r + 1)"

text \<open>
  The characters that each \<open>simple_\<close> converter stores after the terminator, in the
  order of the stores (so the text is their reverse), for a capacity \<open>cap\<close>; and the
  texts that result for the capacities that the writers use.
\<close>

definition itoa_rtext :: "int32_t \<Rightarrow> int \<Rightarrow> string" where
  "itoa_rtext v cap =
     (if v = 0 \<and> 2 < cap then ''0''
      else map digit_char (rdigits 10 (nat (sint (if v <s 0 then - v else v)))) @
           (if v <s 0 then ''-'' else []))"

definition ulltoa_rtext :: "uint64_t \<Rightarrow> int \<Rightarrow> string" where
  "ulltoa_rtext v cap =
     (if v = 0 \<and> 2 < cap then ''0'' else map digit_char (rdigits 10 (unat v)))"

definition hex_rtext :: "uintptr_t \<Rightarrow> int \<Rightarrow> string" where
  "hex_rtext v cap =
     (let ds = (if v = 0 \<and> 2 < cap then ''0'' else []) @ map ((!) hex_chars) (rdigits 16 (unat v));
          q = cap - 2 - int (min (length ds) (nat (cap - 1)))
      in ds @ (if 0 < q then ''x0'' else if 0 = q then ''0'' else []))"

definition i32_text :: "int32_t \<Rightarrow> string" where
  "i32_text v = rev (itoa_rtext v 12)"

definition u64_text :: "uint64_t \<Rightarrow> string" where
  "u64_text v = rev (ulltoa_rtext v 21)"

definition ptr_text :: "uintptr_t \<Rightarrow> string" where
  "ptr_text v = rev (hex_rtext v 19)"

text \<open>The strings that the composer hands to \<open>write\<close>, in order, and the report that
  they make up when the lines of the frames \<open>fs\<close> are emitted.\<close>

definition header_pieces :: "int32_t \<Rightarrow> time_t \<Rightarrow> uint64_t \<Rightarrow> int32_t \<Rightarrow> string list" where
  "header_pieces signal_num timestamp thread_id frame_count =
     [''Signal: '', i32_text signal_num,
      ''\<newline>Timestamp: '', i32_text (ucast timestamp),
      ''\<newline>ThreadID: '', u64_text thread_id,
      ''\<newline>Frames_count: '', i32_text frame_count,
      ''\<newline>Frames (raw addresses):\<newline>'']"

definition frame_pieces :: "uintptr_t \<Rightarrow> string list" where
  "frame_pieces f = (if f \<noteq> 0 then [''  '', ptr_text f, ''\<newline>''] else [''  0x0 (nil)\<newline>''])"

definition frame_lines :: "uintptr_t list \<Rightarrow> string" where
  "frame_lines fs = concat (concat (map frame_pieces fs))"

definition report_text ::
  "int32_t \<Rightarrow> time_t \<Rightarrow> uint64_t \<Rightarrow> int32_t \<Rightarrow> uintptr_t list \<Rightarrow> string" where
  "report_text signal_num timestamp thread_id frame_count fs =
     concat (header_pieces signal_num timestamp thread_id frame_count) @ frame_lines fs @ end_marker"

text \<open>The log entries of a list of writes that all succeed in full.\<close>

definition full_log :: "string list \<Rightarrow> (string \<times> int) list" where
  "full_log xs = map (\<lambda>x. (x, int (length x))) xs"

text \<open>Writing a list of strings one after the other, each result added to the total
  when it is positive.\<close>

fun emit :: "int \<Rightarrow> string list \<Rightarrow> sink \<times> int \<Rightarrow> sink \<times> int" where
  "emit fd [] st = st"
| "emit fd (x # xs) st =
     (case sys_write fd (fst st) x of
        (r, s') \<Rightarrow> emit fd xs (s', if 0 < r then snd st + r else snd st))"

text \<open>Two destinations: one that takes every byte and one where every write fails.\<close>

definition ideal_sink :: sink where
  "ideal_sink = \<lparr>behaviour = (\<lambda>k. Full), log = [], synced = 0\<rparr>"

definition dead_sink :: sink where
  "dead_sink = \<lparr>behaviour = (\<lambda>k. Failed), log = [], synced = 0\<rparr>"

text \<open>The strings that a call passed to \<open>write\<close>.\<close>

definition requested :: "fault + (int \<times> sink) \<Rightarrow> string list" where
  "requested r = (case r of Inl e \<Rightarrow> [] | Inr (ret, s) \<Rightarrow> map fst (log s))"

section \<open>Properties of the converters\<close>

subsection \<open>Stores and downward fills\<close>

declare rdigits.simps [simp del] dec_nat.simps [simp del] hex_nat.simps [simp del]
declare itoa_loop.simps [simp del] ulltoa_loop.simps [simp del] hex_loop.simps [simp del]
  minimal_digits.simps [simp del] reverse_loop.simps [simp del] c_str.simps [simp del]

lemma bindr_Inr [simp]: "bindr (Inr x) f = f x"
  by (simp add: bindr_def)

lemma bindr_Inl [simp]: "bindr (Inl e) f = Inl e"
  by (simp add: bindr_def)

lemma store_in [simp]:
  "0 \<le> p \<Longrightarrow> p < int (length buf) \<Longrightarrow> store buf p c = Inr (buf[nat p := Some c])"
  by (simp add: store_def)

lemma put_down_neg [simp]: "p < 0 \<Longrightarrow> put_down cs buf p = (buf, p)"
  by (cases cs) auto

lemma drop_update_here:
  "n < length xs \<Longrightarrow> drop n (xs[n := x]) = x # drop (Suc n) xs"
  by (simp add: Cons_nth_drop_Suc [symmetric])

lemma put_down_eq:
  "- 1 \<le> p \<Longrightarrow> p < int (length buf) \<Longrightarrow>
   put_down cs buf p =
     (let k = min (length cs) (nat (p + 1)) in
      (take (nat (p + 1) - k) buf @ map Some (rev (take k cs)) @ drop (nat (p + 1)) buf,
       p - int k))"
proof (induction cs buf p rule: put_down.induct)
  case (1 buf p)
  then show ?case by simp
next
  case (2 c cs buf p)
  show ?case
  proof (cases "0 \<le> p")
    case False
    with 2 have "p = - 1" by simp
    then show ?thesis by simp
  next
    case True
    define n where "n = nat p"
    have p: "p = int n" using True by (simp add: n_def)
    have n: "n < length buf" using 2(3) p by simp
    have "put_down (c # cs) buf p = put_down cs (buf[n := Some c]) (int n - 1)"
      using True p by simp
    also have "\<dots> = (let k = min (length cs) n in
          (take (n - k) (buf[n := Some c]) @ map Some (rev (take k cs)) @ drop n (buf[n := Some c]),
           int n - 1 - int k))"
      using 2(1) [OF True] n p by (simp add: Let_def nat_diff_distrib)
    also have "\<dots> = (let k = min (length (c # cs)) (nat (p + 1)) in
      (take (nat (p + 1) - k) buf @ map Some (rev (take k (c # cs))) @ drop (nat (p + 1)) buf,
       p - int k))"
      using n p by (simp add: Let_def drop_update_here nat_add_distrib)
    finally show ?thesis .
  qed
qed

subsection \<open>Digits\<close>

lemma rdigits_0 [simp]: "rdigits b 0 = []"
  by (simp add: rdigits.simps)

lemma rdigits_pos: "0 < n \<Longrightarrow> 2 \<le> b \<Longrightarrow> rdigits b n = (n mod b) # rdigits b (n div b)"
  by (subst rdigits.simps) simp

lemma rdigits_less: "2 \<le> b \<Longrightarrow> d \<in> set (rdigits b n) \<Longrightarrow> d < b"
  by (induction b n rule: rdigits.induct) (subst (asm) (2) rdigits.simps, auto split: if_splits)

lemma length_rdigits: "2 \<le> b \<Longrightarrow> n < b ^ k \<Longrightarrow> length (rdigits b n) \<le> k"
proof (induction k arbitrary: n)
  case 0
  then show ?case by simp
next
  case (Suc k)
  show ?case
  proof (cases "n = 0")
    case True
    then show ?thesis by simp
  next
    case False
    have "n div b < b ^ k"
      using Suc.prems by (simp add: less_mult_imp_div_less mult.commute)
    with Suc.IH [of "n div b"] Suc.prems(1) False show ?thesis
      by (simp add: rdigits_pos)
  qed
qed

lemma rdigits_nonempty: "0 < n \<Longrightarrow> 2 \<le> b \<Longrightarrow> rdigits b n \<noteq> []"
  by (simp add: rdigits_pos)

subsection \<open>Words\<close>

lemma sint_small32:
  "0 \<le> i \<Longrightarrow> i < 2 ^ 31 \<Longrightarrow> sint (word_of_int i :: 32 word) = i"
  by (simp add: int_word_sint)

lemma sint32_pos_div:
  fixes v :: "32 word"
  assumes "0 <s v"
  shows "sint (c_div32 v 10) = sint v div 10" and "sint (c_mod32 v 10) = sint v mod 10"
    and "0 \<le> sint (c_div32 v 10)"
proof -
  have pos: "0 < sint v" using assms by (simp add: word_sless_alt)
  have ub: "sint v < 2 ^ 31" using sint_lt [of v] by simp
  have d: "sint v sdiv 10 = sint v div 10" using pos
    by (simp add: signed_divide_int_def sgn_if)
  have m: "sint v smod 10 = sint v mod 10" using pos
    by (simp add: smod_mod_positive)
  have "0 \<le> sint v div 10" "sint v div 10 < 2 ^ 31" using pos ub by auto
  then show "sint (c_div32 v 10) = sint v div 10"
    by (simp add: c_div32_def d sint_small32)
  then show "0 \<le> sint (c_div32 v 10)" using pos by simp
  have "0 \<le> sint v mod 10" "sint v mod 10 < 2 ^ 31" using pos
    by (auto intro: less_trans [OF pos_mod_bound])
  then show "sint (c_mod32 v 10) = sint v mod 10"
    by (simp add: c_mod32_def m sint_small32)
qed

lemma itoa_digit:
  fixes v :: "32 word"
  assumes "0 <s v"
  shows "char_of (sint (c_mod32 v 10) + 48) = digit_char (nat (sint v) mod 10)"
proof -
  have pos: "0 < sint v" using assms by (simp add: word_sless_alt)
  have "int (nat (sint v) mod 10) = sint v mod 10"
    using pos by (simp add: zmod_int)
  then have "sint v mod 10 + 48 = int (nat (sint v) mod 10 + 48)"
    by simp
  then show ?thesis
    by (simp only: sint32_pos_div(2) [OF assms] digit_char_def char_of_nat)
qed

lemma unat64_mod10: "unat (v mod 10) = unat v mod 10" for v :: "64 word"
  using unat_mod [of v 10] by simp

lemma unat64_div10: "unat (v div 10) = unat v div 10" for v :: "64 word"
  using unat_div [of v 10] by simp

lemma unat64_digit: "unat (v mod 10 + 48) = unat v mod 10 + 48" for v :: "64 word"
proof -
  have "unat (v mod 10) + unat (48 :: 64 word) < 2 ^ LENGTH(64)"
    unfolding unat64_mod10 by simp
  then have "unat (v mod 10 + 48) = unat (v mod 10) + unat (48 :: 64 word)"
    by (rule unat_add_lem [THEN iffD1])
  then show ?thesis by (simp only: unat64_mod10) simp
qed

lemma unat64_nibble: "unat (v AND 0xF) = unat v mod 16" for v :: "64 word"
proof -
  have "v AND mask 4 = take_bit 4 v" by (rule take_bit_eq_mask [symmetric])
  moreover have "(mask 4 :: 64 word) = 0xF" by (simp add: mask_eq_exp_minus_1)
  ultimately have "v AND 0xF = take_bit 4 v" by (simp only:)
  then have "unat (v AND 0xF) = take_bit 4 (unat v)" by (simp only: unsigned_take_bit_eq)
  then show ?thesis by (simp only: take_bit_eq_mod) simp
qed

lemma unat64_shift4: "unat (drop_bit 4 v) = unat v div 16" for v :: "64 word"
proof -
  have "unat (drop_bit 4 v) = drop_bit 4 (unat v)" by (rule unat_drop_bit_eq)
  also have "\<dots> = unat v div 2 ^ 4" by (rule drop_bit_eq_div)
  also have "(2::nat) ^ 4 = 16" by simp
  finally show ?thesis .
qed

lemma unat64_zero: "\<not> 0 < v \<Longrightarrow> unat v = 0" for v :: "64 word"
  by (simp add: word_neq_0_conv [symmetric])

lemma unat64_pos: "0 < v \<Longrightarrow> 0 < unat v" for v :: "64 word"
  by (simp add: word_neq_0_conv [symmetric] unat_gt_0)

lemma unat64_bounds: "unat v < 16 ^ 16" "unat v < 10 ^ 20" for v :: "64 word"
  using unsigned_less [of v, where 'a = nat] by simp_all

lemma sint32_bounds: "sint v < 10 ^ 10" "- (10 ^ 10) < sint v" for v :: "32 word"
  using sint_lt [of v] sint_ge [of v] by simp_all

lemma sint32_zero: "v = 0 \<longleftrightarrow> sint v = 0" for v :: "32 word"
proof
  assume "sint v = 0"
  then have "word_of_int (sint v) = (0 :: 32 word)" by simp
  then show "v = 0" by simp
qed simp

lemma sint32_neg:
  fixes v :: "32 word"
  assumes "v \<noteq> INT32_MIN"
  shows "sint (- v) = - sint v"
proof -
  have "sint v \<noteq> - (2 ^ 31)"
  proof
    assume "sint v = - (2 ^ 31)"
    then have "word_of_int (sint v) = (word_of_int (- (2 ^ 31)) :: 32 word)" by simp
    then have "v = 0x80000000" by simp
    with assms show False by (simp add: INT32_MIN_def)
  qed
  moreover have "- (2 ^ 31) \<le> sint v" "sint v < 2 ^ 31"
    using sint_ge [of v] sint_lt [of v] by simp_all
  ultimately have "- (2 ^ 31) \<le> - sint v" "- sint v < 2 ^ 31" by simp_all
  then have "signed_take_bit 31 (- sint v) = - sint v"
    by (intro signed_take_bit_int_eq_self) simp_all
  then show ?thesis by (simp add: sint_word_minus)
qed

lemma sint32_neg_min: "sint (- INT32_MIN) = - (2 ^ 31)"
  by (simp add: INT32_MIN_def)

lemma itoa_loop_eq:
  "p < int (length buf) \<Longrightarrow>
   itoa_loop val buf p = Inr (put_down (map digit_char (rdigits 10 (nat (sint val)))) buf p)"
proof (induction val buf p rule: itoa_loop.induct)
  case (1 val buf p)
  show ?case
  proof (cases "0 <s val \<and> 0 \<le> p")
    case True
    then have pos: "0 < sint val" by (simp add: word_sless_alt)
    have st: "store buf p (char_of (sint (c_mod32 val 10) + 48)) =
        Inr (buf[nat p := Some (digit_char (nat (sint val) mod 10))])"
      using True 1(2) by (simp add: itoa_digit)
    have "itoa_loop (c_div32 val 10) (buf[nat p := Some (digit_char (nat (sint val) mod 10))]) (p - 1) =
       Inr (put_down (map digit_char (rdigits 10 (nat (sint (c_div32 val 10)))))
              (buf[nat p := Some (digit_char (nat (sint val) mod 10))]) (p - 1))"
      using 1(1) [OF True st] True 1(2) by simp
    moreover have "nat (sint (c_div32 val 10)) = nat (sint val) div 10"
      using True pos by (simp add: sint32_pos_div(1) nat_div_distrib)
    ultimately show ?thesis
      using True pos st by (subst itoa_loop.simps) (simp add: rdigits_pos)
  next
    case False
    then have "sint val \<le> 0 \<or> p < 0" by (auto simp: word_sless_alt)
    then show ?thesis using False
      by (subst itoa_loop.simps) auto
  qed
qed

lemma ulltoa_digit: "char_of (unat (v mod 10 + 48)) = digit_char (unat v mod 10)" for v :: "64 word"
  by (simp only: unat64_digit digit_char_def)

lemma ulltoa_loop_eq:
  "p < int (length buf) \<Longrightarrow>
   ulltoa_loop val buf p = Inr (put_down (map digit_char (rdigits 10 (unat val))) buf p)"
proof (induction val buf p rule: ulltoa_loop.induct)
  case (1 val buf p)
  show ?case
  proof (cases "0 < val \<and> 0 \<le> p")
    case True
    then have pos: "0 < unat val" by (simp add: unat64_pos)
    have st: "store buf p (char_of (unat (val mod 10 + 48))) =
        Inr (buf[nat p := Some (digit_char (unat val mod 10))])"
      using True 1(2) by (simp add: ulltoa_digit)
    have "ulltoa_loop (val div 10) (buf[nat p := Some (digit_char (unat val mod 10))]) (p - 1) =
       Inr (put_down (map digit_char (rdigits 10 (unat (val div 10))))
              (buf[nat p := Some (digit_char (unat val mod 10))]) (p - 1))"
      using 1(1) [OF True st] True 1(2) by simp
    moreover have "unat (val div 10) = unat val div 10"
      by (rule unat64_div10)
    ultimately show ?thesis
      using True pos st by (subst ulltoa_loop.simps) (simp add: rdigits_pos)
  next
    case False
    then have "unat val = 0 \<or> p < 0" by (auto simp: unat64_zero)
    then show ?thesis using False
      by (subst ulltoa_loop.simps) auto
  qed
qed

lemma hex_loop_eq:
  "p < int (length buf) \<Longrightarrow>
   hex_loop val buf p = Inr (put_down (map ((!) hex_chars) (rdigits 16 (unat val))) buf p)"
proof (induction val buf p rule: hex_loop.induct)
  case (1 val buf p)
  show ?case
  proof (cases "0 < val \<and> 0 \<le> p")
    case True
    then have pos: "0 < unat val" by (simp add: unat64_pos)
    have st: "store buf p (hex_chars ! unat (val AND 0xF)) =
        Inr (buf[nat p := Some (hex_chars ! (unat val mod 16))])"
      using True 1(2) by (simp add: unat64_nibble)
    have "hex_loop (drop_bit 4 val) (buf[nat p := Some (hex_chars ! (unat val mod 16))]) (p - 1) =
       Inr (put_down (map ((!) hex_chars) (rdigits 16 (unat (drop_bit 4 val))))
              (buf[nat p := Some (hex_chars ! (unat val mod 16))]) (p - 1))"
      using 1(1) [OF True st] True 1(2) by simp
    moreover have "unat (drop_bit 4 val) = unat val div 16"
      by (rule unat64_shift4)
    ultimately show ?thesis
      using True pos st by (subst hex_loop.simps) (simp add: rdigits_pos)
  next
    case False
    then have "unat val = 0 \<or> p < 0" by (auto simp: unat64_zero)
    then show ?thesis using False
      by (subst hex_loop.simps) auto
  qed
qed

subsection \<open>Text in a buffer\<close>

lemma c_str_seg:
  "NUL \<notin> set s \<Longrightarrow> c_str (pre @ map Some s @ Some NUL # post) (int (length pre)) = Inr s"
proof (induction s arbitrary: pre)
  case Nil
  show ?case by (subst c_str.simps) simp
next
  case (Cons c s)
  have "c_str ((pre @ [Some c]) @ map Some s @ Some NUL # post) (int (length (pre @ [Some c]))) = Inr s"
    using Cons.prems by (intro Cons.IH) simp
  then have "c_str (pre @ Some c # map Some s @ Some NUL # post) (int (length pre) + 1) = Inr s"
    by (simp add: add.commute)
  then show ?case using Cons.prems
    by (subst c_str.simps) auto
qed

lemma put_down_append:
  "put_down (cs @ ds) buf p = (case put_down cs buf p of (b, q) \<Rightarrow> put_down ds b q)"
  by (induction cs buf p rule: put_down.induct) auto

lemma put_down_text:
  assumes "1 \<le> cap" "cap \<le> int (length buf)" "NUL \<notin> set txt"
  defines "k \<equiv> min (length txt) (nat (cap - 1))"
  shows "put_down (NUL # txt) buf (cap - 1) =
           (take (nat cap - 1 - k) buf @ map Some (rev (take k txt)) @ Some NUL # drop (nat cap) buf,
            cap - 2 - int k)"
    and "c_str (fst (put_down (NUL # txt) buf (cap - 1))) (cap - 1 - int k) = Inr (rev (take k txt))"
proof -
  have k: "min (length (NUL # txt)) (nat (cap - 1 + 1)) = Suc k"
    using assms(1) by (simp add: k_def nat_diff_distrib)
  have "nat (cap - 1 + 1) - Suc k = nat cap - 1 - k" by simp
  show eq: "put_down (NUL # txt) buf (cap - 1) =
           (take (nat cap - 1 - k) buf @ map Some (rev (take k txt)) @ Some NUL # drop (nat cap) buf,
            cap - 2 - int k)"
  proof -
    have "put_down (NUL # txt) buf (cap - 1) =
       (let k' = min (length (NUL # txt)) (nat (cap - 1 + 1)) in
         (take (nat (cap - 1 + 1) - k') buf @ map Some (rev (take k' (NUL # txt))) @
            drop (nat (cap - 1 + 1)) buf, cap - 1 - int k'))"
      using assms(1,2) by (intro put_down_eq) simp_all
    also have "\<dots> = (take (nat cap - 1 - k) buf @ map Some (rev (take k txt)) @
         Some NUL # drop (nat cap) buf, cap - 2 - int k)"
      unfolding Let_def k by simp
    finally show ?thesis .
  qed
  have len: "int (length (take (nat cap - 1 - k) buf)) = cap - 1 - int k"
    using assms(1,2) by (simp add: k_def) 
  have "NUL \<notin> set (rev (take k txt))" using assms(3) by (auto dest: in_set_takeD)
  from c_str_seg [OF this, of "take (nat cap - 1 - k) buf" "drop (nat cap) buf"]
  show "c_str (fst (put_down (NUL # txt) buf (cap - 1))) (cap - 1 - int k) = Inr (rev (take k txt))"
    unfolding eq fst_conv len .
qed

lemma length_put_down [simp]: "length (fst (put_down cs buf p)) = length buf"
  by (induction cs buf p rule: put_down.induct) auto

lemma put_down_snd_le: "snd (put_down cs buf p) \<le> p"
  by (induction cs buf p rule: put_down.induct) auto

lemma put_down_NUL:
  "1 \<le> cap \<Longrightarrow> put_down (NUL # txt) buf (cap - 1) = put_down txt (buf[nat (cap - 1) := Some NUL]) (cap - 2)"
  by simp

subsection \<open>The converters as one downward fill\<close>

lemma simple_itoa_put:
  assumes "1 \<le> cap" "cap \<le> int (length buf)"
  shows "simple_itoa v buf cap = Inr (finish (put_down (NUL # itoa_rtext v cap) buf (cap - 1)))"
proof -
  define b0 where "b0 = buf[nat (cap - 1) := Some NUL]"
  have len0: "int (length b0) = int (length buf)" by (simp add: b0_def)
  have st: "store buf (cap - 1) NUL = Inr b0"
    using assms by (simp add: b0_def)
  show ?thesis
  proof (cases "v = 0 \<and> 0 < cap - 2")
    case True
    then show ?thesis
      using assms st len0
      by (simp add: simple_itoa_def Let_def itoa_rtext_def finish_def b0_def)
  next
    case False
    define a where "a = (if v <s 0 then - v else v)"
    define ds where "ds = map digit_char (rdigits 10 (nat (sint a)))"
    obtain b1 q where pd: "put_down ds b0 (cap - 2) = (b1, q)"
      by (cases "put_down ds b0 (cap - 2)")
    have q: "q \<le> cap - 2" using put_down_snd_le [of ds b0 "cap - 2"] pd by simp
    have len1: "int (length b1) = int (length buf)"
      using length_put_down [of ds b0 "cap - 2"] pd len0 by simp
    have loop: "itoa_loop a b0 (cap - 2) = Inr (b1, q)"
      using assms len0 pd by (simp add: itoa_loop_eq ds_def)
    define sg where "sg = (if v <s 0 then ''-'' else [])"
    have rt: "itoa_rtext v cap = ds @ sg"
      using False by (auto simp: itoa_rtext_def ds_def a_def sg_def)
    have "put_down (NUL # itoa_rtext v cap) buf (cap - 1) = put_down (itoa_rtext v cap) b0 (cap - 2)"
      unfolding b0_def using assms(1) by (rule put_down_NUL)
    also have "\<dots> = put_down sg b1 q"
      by (simp only: rt put_down_append pd split)
    finally have "put_down (NUL # itoa_rtext v cap) buf (cap - 1) =
          put_down (if v <s 0 then ''-'' else []) b1 q"
      by (simp only: sg_def)
    then show ?thesis
      using False assms st loop q len1
      by (auto simp: simple_itoa_def Let_def finish_def a_def [symmetric])
  qed
qed

lemma simple_ulltoa_put:
  assumes "1 \<le> cap" "cap \<le> int (length buf)"
  shows "simple_ulltoa v buf cap = Inr (finish (put_down (NUL # ulltoa_rtext v cap) buf (cap - 1)))"
proof -
  define b0 where "b0 = buf[nat (cap - 1) := Some NUL]"
  have len0: "int (length b0) = int (length buf)" by (simp add: b0_def)
  have st: "store buf (cap - 1) NUL = Inr b0"
    using assms by (simp add: b0_def)
  have nul: "put_down (NUL # ulltoa_rtext v cap) buf (cap - 1) = put_down (ulltoa_rtext v cap) b0 (cap - 2)"
    unfolding b0_def using assms(1) by (rule put_down_NUL)
  show ?thesis
  proof (cases "v = 0 \<and> 0 < cap - 2")
    case True
    then show ?thesis
      using assms st len0 unfolding nul
      by (simp add: simple_ulltoa_def Let_def ulltoa_rtext_def finish_def)
  next
    case False
    have "ulltoa_loop v b0 (cap - 2) = Inr (put_down (ulltoa_rtext v cap) b0 (cap - 2))"
      using False assms len0 by (auto simp: ulltoa_loop_eq ulltoa_rtext_def)
    then show ?thesis
      using False assms st unfolding nul
      by (auto simp: simple_ulltoa_def Let_def finish_def split: prod.splits)
  qed
qed

lemma simple_ptr_to_hex_put:
  assumes "1 \<le> cap" "cap \<le> int (length buf)"
  shows "simple_ptr_to_hex v buf cap =
           Inr (finish (put_down (NUL # hex_rtext v cap) buf (cap - 1)))"
proof -
  define b0 where "b0 = buf[nat (cap - 1) := Some NUL]"
  define z where "z = (if v = 0 \<and> 2 < cap then ''0'' else [])"
  define hs where "hs = map ((!) hex_chars) (rdigits 16 (unat v))"
  define tl where "tl q = (if 0 < q then ''x0'' else if 0 = q then ''0'' else [])" for q :: int
  have len0: "int (length b0) = int (length buf)" by (simp add: b0_def)
  have st: "store buf (cap - 1) NUL = Inr b0"
    using assms by (simp add: b0_def)
  obtain b1 p1 where pz: "put_down z b0 (cap - 2) = (b1, p1)"
    by (cases "put_down z b0 (cap - 2)")
  have p1: "p1 \<le> cap - 2" using put_down_snd_le [of z b0 "cap - 2"] pz by simp
  have len1: "int (length b1) = int (length buf)"
    using length_put_down [of z b0 "cap - 2"] pz len0 by simp
  have zstep: "(if v = 0 \<and> 0 < cap - 2
                then bindr (store b0 (cap - 2) CHR ''0'') (\<lambda>buf1. Inr (buf1, cap - 2 - 1))
                else Inr (b0, cap - 2)) = Inr (b1, p1)"
    using pz assms len0 by (auto simp: z_def)
  obtain b2 p2 where ph: "put_down hs b1 p1 = (b2, p2)"
    by (cases "put_down hs b1 p1")
  have p2: "p2 \<le> cap - 2" using put_down_snd_le [of hs b1 p1] ph p1 by simp
  have len2: "int (length b2) = int (length buf)"
    using length_put_down [of hs b1 p1] ph len1 by simp
  have loop: "hex_loop v b1 p1 = Inr (b2, p2)"
    using assms len1 p1 ph by (simp add: hex_loop_eq hs_def)
  have both: "put_down (z @ hs) b0 (cap - 2) = (b2, p2)"
    by (simp only: put_down_append pz ph split)
  have "p2 = cap - 2 - int (min (length (z @ hs)) (nat (cap - 2 + 1)))"
    using put_down_eq [of "cap - 2" b0 "z @ hs"] assms len0 both
    by (simp add: Let_def)
  then have q: "p2 = cap - 2 - int (min (length (z @ hs)) (nat (cap - 1)))"
    by simp
  have rt: "hex_rtext v cap = (z @ hs) @ tl p2"
    unfolding hex_rtext_def Let_def z_def [symmetric] hs_def [symmetric] q [symmetric] tl_def ..
  have "put_down (NUL # hex_rtext v cap) buf (cap - 1) = put_down (hex_rtext v cap) b0 (cap - 2)"
    unfolding b0_def using assms(1) by (rule put_down_NUL)
  also have "\<dots> = put_down (tl p2) b2 p2"
    unfolding rt put_down_append [of "z @ hs" "tl p2"] both split ..
  finally have fill: "put_down (NUL # hex_rtext v cap) buf (cap - 1) = put_down (tl p2) b2 p2" .
  have tail: "bindr (if 0 < p2
             then bindr (store b2 p2 CHR ''x'') (\<lambda>buf3. Inr (buf3, p2 - 1))
             else Inr (b2, p2)) (\<lambda>(buf3, p).
      bindr (if 0 \<le> p
             then bindr (store buf3 p CHR ''0'') (\<lambda>buf4. Inr (buf4, p - 1))
             else Inr (buf3, p)) (\<lambda>(buf4, p). Inr (buf4, p + 1))) = Inr (finish (put_down (tl p2) b2 p2))"
  proof -
    have "p2 < int (length b2)" "0 < length b2" using p2 len2 assms by auto
    then show ?thesis by (auto simp: tl_def finish_def)
  qed
  show ?thesis
  proof -
    have e: "cap - 1 - 1 = cap - 2" by simp
    show ?thesis
      unfolding simple_ptr_to_hex_def Let_def e st bindr_Inr zstep split loop tail fill ..
  qed
qed

subsection \<open>No null byte inside the text\<close>

lemma digit_char_0: "digit_char 0 = CHR ''0''"
  unfolding digit_char_def by code_simp

lemma digit_char_not_NUL: "d < 10 \<Longrightarrow> digit_char d \<noteq> NUL"
proof
  assume "d < 10" "digit_char d = NUL"
  then have "of_char (digit_char d) = (of_char NUL :: nat)" by simp
  then show False using \<open>d < 10\<close> by (simp add: digit_char_def NUL_def)
qed

lemma hex_chars_not_NUL: "d < 16 \<Longrightarrow> hex_chars ! d \<noteq> NUL"
proof -
  assume "d < 16"
  then have "hex_chars ! d \<in> set hex_chars" by (intro nth_mem) (simp add: hex_chars_def)
  moreover have "NUL \<notin> set hex_chars" by (simp add: hex_chars_def NUL_def)
  ultimately show ?thesis by auto
qed

lemma NUL_notin_dec: "NUL \<notin> set (map digit_char (rdigits 10 n))"
proof
  assume "NUL \<in> set (map digit_char (rdigits 10 n))"
  then obtain d where "d \<in> set (rdigits 10 n)" "digit_char d = NUL" by auto
  then show False using rdigits_less [of 10 d n] digit_char_not_NUL [of d] by simp
qed

lemma NUL_notin_hex: "NUL \<notin> set (map ((!) hex_chars) (rdigits 16 n))"
proof
  assume "NUL \<in> set (map ((!) hex_chars) (rdigits 16 n))"
  then obtain d where "d \<in> set (rdigits 16 n)" "hex_chars ! d = NUL" by auto
  then show False using rdigits_less [of 16 d n] hex_chars_not_NUL [of d] by simp
qed

lemma NUL_notin_itoa: "NUL \<notin> set (itoa_rtext v cap)"
  using NUL_notin_dec by (auto simp: itoa_rtext_def NUL_def)

lemma NUL_notin_ulltoa: "NUL \<notin> set (ulltoa_rtext v cap)"
  using NUL_notin_dec by (auto simp: ulltoa_rtext_def NUL_def)

lemma NUL_notin_hextext: "NUL \<notin> set (hex_rtext v cap)"
  using NUL_notin_hex by (auto simp: hex_rtext_def Let_def NUL_def)

subsection \<open>Writes stay inside the capacity\<close>


subsection \<open>The text that each converter produces\<close>

declare put_down.simps [simp del]

lemma fill_string:
  assumes "1 \<le> cap" "cap \<le> int (length buf)" "NUL \<notin> set txt" "int (length txt) < cap"
  shows "c_str (fst (finish (put_down (NUL # txt) buf (cap - 1))))
               (snd (finish (put_down (NUL # txt) buf (cap - 1)))) = Inr (rev txt)"
    and "snd (finish (put_down (NUL # txt) buf (cap - 1))) = cap - 1 - int (length txt)"
proof -
  have k: "min (length txt) (nat (cap - 1)) = length txt" using assms(4) by simp
  have sn: "snd (put_down (NUL # txt) buf (cap - 1)) = cap - 2 - int (length txt)"
    using put_down_text(1) [OF assms(1-3)] by (simp add: k)
  then have e: "snd (put_down (NUL # txt) buf (cap - 1)) + 1 = cap - 1 - int (length txt)"
    by simp
  show "snd (finish (put_down (NUL # txt) buf (cap - 1))) = cap - 1 - int (length txt)"
    unfolding finish_def snd_conv by (rule e)
  show "c_str (fst (finish (put_down (NUL # txt) buf (cap - 1))))
               (snd (finish (put_down (NUL # txt) buf (cap - 1)))) = Inr (rev txt)"
    unfolding finish_def fst_conv snd_conv e
    using put_down_text(2) [OF assms(1-3)] by (simp add: k)
qed

lemma dec_nat_rdigits:
  "dec_nat n = (if n = 0 then ''0'' else rev (map digit_char (rdigits 10 n)))"
proof (induction n rule: dec_nat.induct)
  case (1 n)
  show ?case
  proof (cases "n < 10")
    case True
    then show ?thesis
      by (subst dec_nat.simps) (auto simp: rdigits_pos digit_char_0)
  next
    case False
    then have "n div 10 \<noteq> 0" by simp
    with 1 False show ?thesis
      by (subst dec_nat.simps) (simp add: rdigits_pos)
  qed
qed

lemma hex_chars_0: "hex_chars ! 0 = CHR ''0''"
  by (simp add: hex_chars_def)

lemma hex_nat_rdigits:
  "hex_nat n = (if n = 0 then ''0'' else rev (map ((!) hex_chars) (rdigits 16 n)))"
proof (induction n rule: hex_nat.induct)
  case (1 n)
  show ?case
  proof (cases "n < 16")
    case True
    then show ?thesis
      by (subst hex_nat.simps) (auto simp: rdigits_pos hex_chars_0)
  next
    case False
    then have "n div 16 \<noteq> 0" by simp
    with 1 False show ?thesis
      by (subst hex_nat.simps) (simp add: rdigits_pos)
  qed
qed

lemma unat64_eq_0: "unat v = 0 \<longleftrightarrow> v = 0" for v :: "64 word"
  by (simp add: unat_eq_0)

lemma u64_text_eq: "u64_text v = dec_nat (unat v)"
  by (simp add: u64_text_def ulltoa_rtext_def dec_nat_rdigits unat64_eq_0)

lemma length_u64_text: "length (ulltoa_rtext v 21) \<le> 20"
  using length_rdigits [of 10 "unat v" 20] unat64_bounds(2) [of v]
  by (simp add: ulltoa_rtext_def)

lemma i32_text_eq: "v \<noteq> INT32_MIN \<Longrightarrow> i32_text v = dec_int (sint v)"
proof -
  assume nm: "v \<noteq> INT32_MIN"
  show ?thesis
  proof (cases "v <s 0")
    case True
    then have neg: "sint v < 0" by (simp add: word_sless_alt)
    then have "v \<noteq> 0" by auto
    moreover have "nat (- sint v) \<noteq> 0" using neg by simp
    ultimately show ?thesis using True neg
      by (simp add: i32_text_def itoa_rtext_def dec_int_def dec_nat_rdigits sint32_neg [OF nm])
  next
    case False
    then have nn: "0 \<le> sint v" by (simp add: word_sless_alt)
    have "nat (sint v) = 0 \<longleftrightarrow> v = 0" using nn by (simp add: sint32_zero)
    then show ?thesis using False nn
      by (auto simp: i32_text_def itoa_rtext_def dec_int_def dec_nat_rdigits)
  qed
qed

lemma i32_text_min: "i32_text INT32_MIN = ''-''"
proof -
  have "INT32_MIN <s 0" by (simp add: INT32_MIN_def word_sless_alt)
  moreover have "INT32_MIN \<noteq> 0" by (simp add: INT32_MIN_def)
  ultimately show ?thesis
    by (simp add: i32_text_def itoa_rtext_def sint32_neg_min)
qed

lemma length_i32_text: "length (itoa_rtext v 12) \<le> 11"
proof -
  define a where "a = (if v <s 0 then - v else v)"
  have "nat (sint a) < 10 ^ 10" using sint32_bounds(1) [of a] by simp
  then have "length (rdigits 10 (nat (sint a))) \<le> 10"
    by (intro length_rdigits) simp_all
  then show ?thesis by (simp add: itoa_rtext_def a_def [symmetric])
qed

lemma hex_rtext_19:
  "hex_rtext v 19 = (if v = 0 then ''0'' else map ((!) hex_chars) (rdigits 16 (unat v))) @ ''x0''"
proof -
  have "length (rdigits 16 (unat v)) \<le> 16"
    using unat64_bounds(1) [of v] by (intro length_rdigits) simp_all
  then show ?thesis
    by (auto simp: hex_rtext_def Let_def)
qed

lemma length_ptr_text: "length (hex_rtext v 19) \<le> 18"
  using length_rdigits [of 16 "unat v" 16] unat64_bounds(1) [of v]
  by (simp add: hex_rtext_19)

lemma ptr_text_eq: "ptr_text v = ''0x'' @ hex_nat (unat v)"
  by (simp add: ptr_text_def hex_rtext_19 hex_nat_rdigits unat64_eq_0)

lemma simple_itoa_string:
  assumes "length buf = 12"
  shows "\<exists>b q. simple_itoa v buf 12 = Inr (b, q) \<and> c_str b q = Inr (i32_text v) \<and>
               q = 11 - int (length (i32_text v))"
proof -
  have l: "int (length (itoa_rtext v 12)) < 12" using length_i32_text [of v] by simp
  have c: "(1::int) \<le> 12" "12 \<le> int (length buf)" using assms by simp_all
  show ?thesis
    using fill_string [OF c NUL_notin_itoa l] simple_itoa_put [OF c, of v]
    by (cases "finish (put_down (NUL # itoa_rtext v 12) buf (12 - 1))") (simp add: i32_text_def)
qed

lemma simple_ulltoa_string:
  assumes "length buf = 21"
  shows "\<exists>b q. simple_ulltoa v buf 21 = Inr (b, q) \<and> c_str b q = Inr (u64_text v) \<and>
               q = 20 - int (length (u64_text v))"
proof -
  have l: "int (length (ulltoa_rtext v 21)) < 21" using length_u64_text [of v] by simp
  have c: "(1::int) \<le> 21" "21 \<le> int (length buf)" using assms by simp_all
  show ?thesis
    using fill_string [OF c NUL_notin_ulltoa l] simple_ulltoa_put [OF c, of v]
    by (cases "finish (put_down (NUL # ulltoa_rtext v 21) buf (21 - 1))") (simp add: u64_text_def)
qed

lemma simple_ptr_to_hex_string:
  assumes "length buf = 19"
  shows "\<exists>b q. simple_ptr_to_hex v buf 19 = Inr (b, q) \<and> c_str b q = Inr (ptr_text v) \<and>
               q = 18 - int (length (ptr_text v))"
proof -
  have l: "int (length (hex_rtext v 19)) < 19" using length_ptr_text [of v] by simp
  have c: "(1::int) \<le> 19" "19 \<le> int (length buf)" using assms by simp_all
  show ?thesis
    using fill_string [OF c NUL_notin_hextext l] simple_ptr_to_hex_put [OF c, of v]
    by (cases "finish (put_down (NUL # hex_rtext v 19) buf (19 - 1))") (simp add: ptr_text_def)
qed

subsection \<open>Primitive writers\<close>

lemma write_int32_val_eq: "write_int32_val fd v = write_literal fd (i32_text v)"
proof
  fix s
  obtain b q where "simple_itoa v (replicate 12 None) 12 = Inr (b, q)" "c_str b q = Inr (i32_text v)"
    using simple_itoa_string [of "replicate 12 None" v] by auto
  then show "write_int32_val fd v s = write_literal fd (i32_text v) s"
    by (simp add: write_int32_val_def write_literal_def)
qed

lemma write_uint64_val_eq: "write_uint64_val fd v = write_literal fd (u64_text v)"
proof
  fix s
  obtain b q where "simple_ulltoa v (replicate 21 None) 21 = Inr (b, q)" "c_str b q = Inr (u64_text v)"
    using simple_ulltoa_string [of "replicate 21 None" v] by auto
  then show "write_uint64_val fd v s = write_literal fd (u64_text v) s"
    by (simp add: write_uint64_val_def write_literal_def)
qed

lemma write_ptr_val_eq: "write_ptr_val fd v = write_literal fd (ptr_text v)"
proof
  fix s
  obtain b q where "simple_ptr_to_hex v (replicate 19 None) 19 = Inr (b, q)" "c_str b q = Inr (ptr_text v)"
    using simple_ptr_to_hex_string [of "replicate 19 None" v] by auto
  then show "write_ptr_val fd v s = write_literal fd (ptr_text v) s"
    by (simp add: write_ptr_val_def write_literal_def)
qed

subsection \<open>Parsing the text back\<close>

lemma is_digit_digit_char: "d < 10 \<Longrightarrow> is_digit (digit_char d)"
  by (simp add: is_digit_def digit_char_def)

lemma of_char_digit_char: "d < 10 \<Longrightarrow> (of_char (digit_char d) :: nat) - 48 = d"
  by (simp add: digit_char_def)

lemma parse_digits_snoc:
  "parse_digits acc (xs @ [c]) =
     (case parse_digits acc xs of
        None \<Rightarrow> None
      | Some a \<Rightarrow> if is_digit c then Some (10 * a + (of_char c - 48)) else None)"
  by (induction xs arbitrary: acc) auto

lemma dec_nat_nonempty: "dec_nat n \<noteq> []"
  by (subst dec_nat.simps) simp

lemma parse_digits_dec_nat: "parse_digits 0 (dec_nat n) = Some n"
proof (induction n rule: dec_nat.induct)
  case (1 n)
  show ?case
  proof (cases "n < 10")
    case True
    then show ?thesis
      by (subst dec_nat.simps) (simp add: is_digit_digit_char of_char_digit_char)
  next
    case False
    with 1 show ?thesis
      by (subst dec_nat.simps)
         (simp add: parse_digits_snoc is_digit_digit_char of_char_digit_char)
  qed
qed

lemma parse_nat_dec_nat: "parse_nat (dec_nat n) = Some n"
  by (simp add: parse_nat_def dec_nat_nonempty parse_digits_dec_nat)

lemma dec_nat_digits: "c \<in> set (dec_nat n) \<Longrightarrow> is_digit c"
proof (induction n rule: dec_nat.induct)
  case (1 n)
  show ?case
  proof (cases "n < 10")
    case True
    with 1(2) show ?thesis
      by (subst (asm) dec_nat.simps) (simp add: is_digit_digit_char)
  next
    case False
    with 1 show ?thesis
      by (subst (asm) (2) dec_nat.simps) (auto simp: is_digit_digit_char)
  qed
qed

lemma is_digit_not_minus: "is_digit c \<Longrightarrow> c \<noteq> CHR ''-''"
  by (auto simp: is_digit_def)

lemma parse_int_dec_int: "parse_int (dec_int i) = Some i"
proof (cases "i < 0")
  case True
  then show ?thesis
    by (simp add: parse_int_def dec_int_def parse_nat_dec_nat)
next
  case False
  obtain c cs where d: "dec_nat (nat i) = c # cs"
    using dec_nat_nonempty [of "nat i"] by (cases "dec_nat (nat i)") auto
  then have "is_digit c" using dec_nat_digits [of c "nat i"] by simp
  then have "c \<noteq> CHR ''-''" by (rule is_digit_not_minus)
  moreover have "parse_nat (c # cs) = Some (nat i)"
    using parse_nat_dec_nat [of "nat i"] by (simp only: d)
  ultimately show ?thesis using False
    by (simp add: parse_int_def dec_int_def d)
qed

lemma hex_val_table: "list_all (\<lambda>d. hex_val (hex_chars ! d) = Some d) [0..<16]"
  by code_simp

lemma hex_val_hex_chars: "d < 16 \<Longrightarrow> hex_val (hex_chars ! d) = Some d"
  using hex_val_table by (simp add: list_all_iff)

lemma parse_hex_snoc:
  "parse_hex acc (xs @ [c]) =
     (case parse_hex acc xs of
        None \<Rightarrow> None
      | Some a \<Rightarrow> (case hex_val c of None \<Rightarrow> None | Some d \<Rightarrow> Some (16 * a + d)))"
  by (induction xs arbitrary: acc) (auto split: option.splits)

lemma parse_hex_hex_nat: "parse_hex 0 (hex_nat n) = Some n"
proof (induction n rule: hex_nat.induct)
  case (1 n)
  show ?case
  proof (cases "n < 16")
    case True
    then show ?thesis
      by (subst hex_nat.simps) (simp add: hex_val_hex_chars)
  next
    case False
    with 1 show ?thesis
      by (subst hex_nat.simps) (simp add: parse_hex_snoc hex_val_hex_chars)
  qed
qed

lemma hex_nat_no_leading_zero: "0 < n \<Longrightarrow> hd (hex_nat n) \<noteq> CHR ''0''"
proof (induction n rule: hex_nat.induct)
  case (1 n)
  show ?case
  proof (cases "n < 16")
    case True
    have "hex_val (hex_chars ! n) = Some n" using True by (rule hex_val_hex_chars)
    moreover have "hex_val CHR ''0'' = Some 0" by (simp add: hex_val_def)
    ultimately have "hex_chars ! n \<noteq> CHR ''0''" using 1(2) by auto
    then show ?thesis using True by (subst hex_nat.simps) simp
  next
    case False
    then have "0 < n div 16" by simp
    moreover have "hex_nat (n div 16) \<noteq> []" by (subst hex_nat.simps) simp
    ultimately show ?thesis using 1(1) False
      by (subst hex_nat.simps) simp
  qed
qed

lemma hex_nat_lowercase: "c \<in> set (hex_nat n) \<Longrightarrow> c \<in> set hex_chars"
proof (induction n rule: hex_nat.induct)
  case (1 n)
  show ?case
  proof (cases "n < 16")
    case True
    have "hex_chars ! n \<in> set hex_chars"
      using True by (intro nth_mem) (simp add: hex_chars_def)
    with 1(2) True show ?thesis
      by (subst (asm) hex_nat.simps) simp
  next
    case False
    have "hex_chars ! (n mod 16) \<in> set hex_chars"
      by (intro nth_mem) (simp add: hex_chars_def)
    with 1 False show ?thesis
      by (subst (asm) (2) hex_nat.simps) auto
  qed
qed

subsection \<open>\<open>minimal_itoa_for_signals\<close>\<close>

lemma load_in:
  "0 \<le> p \<Longrightarrow> p < int (length buf) \<Longrightarrow> buf ! nat p = Some c \<Longrightarrow> load buf p = Inr c"
  by (simp add: load_def)

lemma put_up_eq:
  "0 \<le> p \<Longrightarrow> p \<le> p_end \<Longrightarrow> p_end \<le> int (length buf) \<Longrightarrow>
   put_up cs buf p p_end =
     (let k = min (length cs) (nat (p_end - p)) in
      (take (nat p) buf @ map Some (take k cs) @ drop (nat p + k) buf, p + int k))"
proof (induction cs buf p p_end rule: put_up.induct)
  case (1 buf p p_end)
  then show ?case by simp
next
  case (2 c cs buf p p_end)
  show ?case
  proof (cases "p < p_end")
    case False
    with 2 have "p = p_end" by simp
    then show ?thesis by simp
  next
    case True
    define n where "n = nat p"
    define m where "m = nat p_end"
    have p: "p = int n" using 2(2) by (simp add: n_def)
    have pe: "p_end = int m" using 2(2,3) by (simp add: m_def)
    have nm: "n < m" "m \<le> length buf" using True 2(4) p pe by simp_all
    have "put_up (c # cs) buf p p_end = put_up cs (buf[n := Some c]) (int n + 1) (int m)"
      using True p pe by simp
    also have "\<dots> = (let k = min (length cs) (m - Suc n) in
          (take (Suc n) (buf[n := Some c]) @ map Some (take k cs) @ drop (Suc n + k) (buf[n := Some c]),
           int n + 1 + int k))"
      using 2(1) [OF True] nm p pe by (simp add: Let_def nat_add_distrib nat_diff_distrib add.commute)
    also have "\<dots> = (let k = min (length (c # cs)) (nat (p_end - p)) in
      (take (nat p) buf @ map Some (take k (c # cs)) @ drop (nat p + k) buf, p + int k))"
    proof -
      have t: "take (Suc n) (buf[n := Some c]) = take n buf @ [Some c]"
        using nm by (simp add: take_Suc_conv_app_nth)
      have k: "min (length (c # cs)) (nat (p_end - p)) = Suc (min (length cs) (m - Suc n))"
        using nm p pe by (simp add: nat_diff_distrib) 
      show ?thesis unfolding Let_def k t using p by simp
    qed
    finally show ?thesis .
  qed
qed

lemma minimal_digits_eq:
  "0 \<le> p \<Longrightarrow> p_end \<le> int (length buf) \<Longrightarrow>
   minimal_digits val buf p p_end =
     Inr (put_up (map digit_char (rdigits 10 (nat (sint val)))) buf p p_end)"
proof (induction val buf p p_end rule: minimal_digits.induct)
  case (1 val buf p p_end)
  show ?case
  proof (cases "0 <s val \<and> p < p_end")
    case True
    then have pos: "0 < sint val" by (simp add: word_sless_alt)
    have st: "store buf p (char_of (sint (c_mod32 val 10) + 48)) =
        Inr (buf[nat p := Some (digit_char (nat (sint val) mod 10))])"
      using True 1(2,3) by (simp add: itoa_digit)
    have "minimal_digits (c_div32 val 10) (buf[nat p := Some (digit_char (nat (sint val) mod 10))]) (p + 1) p_end =
       Inr (put_up (map digit_char (rdigits 10 (nat (sint (c_div32 val 10)))))
              (buf[nat p := Some (digit_char (nat (sint val) mod 10))]) (p + 1) p_end)"
      using 1(1) [OF True st] True 1(2,3) by simp
    moreover have "nat (sint (c_div32 val 10)) = nat (sint val) div 10"
      using True pos by (simp add: sint32_pos_div(1) nat_div_distrib)
    ultimately show ?thesis
      using True pos st by (subst minimal_digits.simps) (simp add: rdigits_pos)
  next
    case False
    then have "sint val \<le> 0 \<or> \<not> p < p_end" by (auto simp: word_sless_alt)
    moreover have "\<not> p < p_end \<Longrightarrow> put_up cs buf p p_end = (buf, p)" for cs
      by (cases cs) auto
    ultimately show ?thesis using False
      by (subst minimal_digits.simps) auto
  qed
qed

lemma reverse_loop_seg:
  "reverse_loop (pre @ map Some seg @ post) (int (length pre))
       (int (length pre) + int (length seg) - 1) = Inr (pre @ map Some (rev seg) @ post)"
proof (induction "length seg" arbitrary: seg pre post rule: less_induct)
  case less
  consider "seg = []" | x where "seg = [x]" | x mid y where "seg = x # mid @ [y]"
  proof (cases seg)
    case Nil
    then show ?thesis using that by simp
  next
    case (Cons x xs)
    then show ?thesis using that by (cases xs rule: rev_cases) auto
  qed
  then show ?case
  proof cases
    case 1
    then show ?thesis by (subst reverse_loop.simps) simp
  next
    case 2
    then show ?thesis by (subst reverse_loop.simps) simp
  next
    case 3
    define buf where "buf = pre @ Some x # map Some mid @ Some y # post"
    define n where "n = length pre"
    define m where "m = length pre + length mid + 1"
    have b: "pre @ map Some seg @ post = buf" by (simp add: 3 buf_def)
    have l: "m < length buf" "n < m" by (simp_all add: buf_def n_def m_def)
    have x: "buf ! n = Some x" by (simp add: buf_def n_def)
    have y: "buf ! m = Some y"
      by (simp add: buf_def m_def nth_append nth_Cons')
    have s1: "buf[n := Some y] = pre @ Some y # map Some mid @ Some y # post"
      by (simp add: buf_def n_def)
    have s2: "(buf[n := Some y])[m := Some x] = (pre @ [Some y]) @ map Some mid @ Some x # post"
      unfolding s1 by (simp add: m_def list_update_append list_update_code nth_Cons')
    have ih: "reverse_loop ((pre @ [Some y]) @ map Some mid @ Some x # post)
          (int (length (pre @ [Some y]))) (int (length (pre @ [Some y])) + int (length mid) - 1) =
        Inr ((pre @ [Some y]) @ map Some (rev mid) @ Some x # post)"
      by (rule less) (simp add: 3)
    have p2: "int (length pre) + int (length seg) - 1 = int m" by (simp add: 3 m_def)
    have "reverse_loop buf (int n) (int m) =
        reverse_loop ((buf[n := Some y])[m := Some x]) (int n + 1) (int m - 1)"
      using l x y by (subst reverse_loop.simps) (simp add: load_in)
    also have "\<dots> = Inr ((pre @ [Some y]) @ map Some (rev mid) @ Some x # post)"
      using ih unfolding s2 by (simp add: n_def m_def add.commute)
    finally have r: "reverse_loop buf (int n) (int m) =
        Inr ((pre @ [Some y]) @ map Some (rev mid) @ Some x # post)" .
    show ?thesis
      unfolding b p2 using r by (simp add: n_def 3)
  qed
qed

lemma length_dec32: "length (rdigits 10 (nat (sint v))) \<le> 10" for v :: "32 word"
proof -
  have "nat (sint v) < 10 ^ 10" using sint32_bounds(1) [of v] by simp
  then show ?thesis by (intro length_rdigits) simp_all
qed

lemma minimal_tail_eq:
  fixes val :: int32_t
  defines "ds \<equiv> map digit_char (rdigits 10 (nat (sint val)))"
  assumes "0 \<le> b" "b + sz \<le> int (length buf)" "0 < sint val" "int (length ds) < sz"
  shows "minimal_tail val buf b sz =
           Inr (take (nat b) buf @ map Some (rev ds) @ Some NUL # drop (nat b + length ds + 1) buf,
                b + int (length ds))"
proof -
  define L where "L = length ds"
  define n where "n = nat b"
  have b: "b = int n" using assms(2) by (simp add: n_def)
  have Lpos: "0 < L"
    using rdigits_nonempty [of "nat (sint val)" 10] assms(4) by (simp add: L_def ds_def)
  have room: "n + L < length buf" using assms(3,5) b by (simp add: L_def)
  have k: "min (length ds) (nat (b + sz - 1 - b)) = L"
    using assms(5) by (simp add: L_def)
  have dg: "minimal_digits val buf b (b + sz - 1) = Inr (put_up ds buf b (b + sz - 1))"
    using assms(2,3) unfolding ds_def by (intro minimal_digits_eq) simp_all
  have pu: "put_up ds buf b (b + sz - 1) = (take n buf @ map Some ds @ drop (n + L) buf, b + int L)"
    using put_up_eq [of b "b + sz - 1" buf ds] assms(2,3,5) unfolding Let_def k
    by (simp add: n_def L_def)
  define b1 where "b1 = take n buf @ map Some ds @ drop (n + L) buf"
  have len1: "length b1 = length buf" using room by (simp add: b1_def L_def)
  have "b1[n + L := Some NUL] = (take n buf @ map Some ds) @ (drop (n + L) buf)[0 := Some NUL]"
    using room unfolding b1_def append_assoc [symmetric]
    by (subst list_update_append) (simp add: L_def)
  moreover have "drop (n + L) buf = buf ! (n + L) # drop (Suc (n + L)) buf"
    using room by (simp add: Cons_nth_drop_Suc)
  then have "(drop (n + L) buf)[0 := Some NUL] = Some NUL # drop (n + L + 1) buf"
    by simp
  ultimately have b3: "b1[n + L := Some NUL] = take n buf @ map Some ds @ Some NUL # drop (n + L + 1) buf"
    by simp
  have st: "store b1 (b + int L) NUL = Inr (take n buf @ map Some ds @ Some NUL # drop (n + L + 1) buf)"
    using room len1 b b3 by (simp add: nat_add_distrib)
  have lt: "int (length (take n buf)) = b" using room b by simp
  have rv: "reverse_loop (take n buf @ map Some ds @ Some NUL # drop (n + L + 1) buf) b (b + int L - 1) =
      Inr (take n buf @ map Some (rev ds) @ Some NUL # drop (n + L + 1) buf)"
    using reverse_loop_seg [of "take n buf" ds "Some NUL # drop (n + L + 1) buf"]
    unfolding lt L_def by simp
  have ne: "\<not> (b + int L = b \<and> b + int L < b + sz - 1)" using Lpos by simp
  show ?thesis
    unfolding minimal_tail_def Let_def dg bindr_Inr pu split if_not_P [OF ne]
    using rv st [unfolded b1_def] by (simp add: L_def n_def)
qed

lemma minimal_itoa_string:
  assumes "length buf = 12" "v \<noteq> INT32_MIN"
  shows "\<exists>m e. minimal_itoa_for_signals v buf 12 = Inr (m, e) \<and> c_str m 0 = Inr (i32_text v) \<and>
               e = int (length (i32_text v))"
proof -
  consider "v = 0" | "0 < sint v" | "sint v < 0"
    using sint32_zero [of v] by fastforce
  then show ?thesis
  proof cases
    case 1
    obtain x y rest where buf: "buf = x # y # rest"
      using assms(1) by (cases buf; cases "tl buf") auto
    have t: "i32_text 0 = ''0''"
      using i32_text_eq [of 0] by (simp add: INT32_MIN_def dec_int_def dec_nat_rdigits)
    have "c_str ([] @ map Some ''0'' @ Some NUL # rest) (int (length ([] :: buffer))) = Inr ''0''"
      by (rule c_str_seg) (simp add: NUL_def)
    then show ?thesis using 1
      by (simp add: minimal_itoa_for_signals_def buf t)
  next
    case 2
    define ds where "ds = map digit_char (rdigits 10 (nat (sint v)))"
    have L: "int (length ds) < 12"
      using length_dec32 [of v] by (simp add: ds_def)
    have t: "i32_text v = rev ds"
      using 2 by (simp add: i32_text_eq [OF assms(2)] dec_int_def dec_nat_rdigits ds_def rev_map)
    have tl: "minimal_tail v buf 0 12 =
        Inr (take (nat 0) buf @ map Some (rev ds) @ Some NUL # drop (nat 0 + length ds + 1) buf,
             0 + int (length ds))"
      unfolding ds_def using assms(1) 2 L [unfolded ds_def] by (intro minimal_tail_eq) simp_all
    have "NUL \<notin> set (rev ds)" using NUL_notin_dec [of "nat (sint v)"] by (simp add: ds_def)
    then have "c_str ([] @ map Some (rev ds) @ Some NUL # drop (length ds + 1) buf)
        (int (length ([] :: buffer))) = Inr (rev ds)"
      by (rule c_str_seg)
    moreover have "v \<noteq> 0" "\<not> v <s 0" using 2 by (auto simp: word_sless_alt)
    ultimately show ?thesis
      by (simp add: minimal_itoa_for_signals_def tl t)
  next
    case 3
    define ds where "ds = map digit_char (rdigits 10 (nat (sint (- v))))"
    define buf1 where "buf1 = buf[0 := Some CHR ''-'']"
    have sn: "sint (- v) = - sint v" using assms(2) by (rule sint32_neg)
    have pos: "0 < sint (- v)" using 3 sn by simp
    have L: "int (length ds) < 11"
      using length_dec32 [of "- v"] by (simp add: ds_def)
    have t: "i32_text v = CHR ''-'' # rev ds"
      using 3 by (simp add: i32_text_eq [OF assms(2)] dec_int_def dec_nat_rdigits ds_def rev_map sn)
    have tl: "minimal_tail (- v) buf1 1 11 =
        Inr (take (nat 1) buf1 @ map Some (rev ds) @ Some NUL # drop (nat 1 + length ds + 1) buf1,
             1 + int (length ds))"
      unfolding ds_def using assms(1) pos L [unfolded ds_def]
      by (intro minimal_tail_eq) (simp_all add: buf1_def)
    have t1: "take (Suc 0) buf1 = [Some CHR ''-'']"
      using assms(1) by (cases buf) (simp_all add: buf1_def)
    have "NUL \<notin> set (CHR ''-'' # rev ds)"
      using NUL_notin_dec [of "nat (sint (- v))"] by (simp add: ds_def NUL_def)
    then have "c_str ([] @ map Some (CHR ''-'' # rev ds) @ Some NUL # drop (nat 1 + length ds + 1) buf1)
        (int (length ([] :: buffer))) = Inr (CHR ''-'' # rev ds)"
      by (rule c_str_seg)
    moreover have "v \<noteq> 0" "v <s 0" using 3 by (auto simp: word_sless_alt)
    moreover have "store buf 0 CHR ''-'' = Inr buf1" using assms(1) by (simp add: buf1_def)
    ultimately show ?thesis
      by (simp add: minimal_itoa_for_signals_def tl t t1)
  qed
qed

section \<open>Properties of the composer\<close>

declare frames_loop.simps [simp del]

lemma gain_append [simp]: "gain (a @ b) = gain a + gain b"
  by (simp add: gain_def)

lemma gain_Nil [simp]: "gain [] = 0"
  by (simp add: gain_def)

lemma emitted_append [simp]: "emitted (a @ b) = emitted a @ emitted b"
  by (simp add: emitted_def)

lemma emitted_Nil [simp]: "emitted [] = []"
  by (simp add: emitted_def)

lemma gain_Cons [simp]: "gain ((x, r) # lg) = (if 0 < r then r else 0) + gain lg"
  by (simp add: gain_def)

lemma emitted_Cons [simp]: "emitted ((x, r) # lg) = take (nat r) x @ emitted lg"
  by (simp add: emitted_def)

lemma tally_literal:
  "tally (write_literal fd x) st = Inr (emit fd [x] st)"
  by (cases st) (simp add: tally_def write_literal_def split: prod.splits)

lemma emit_append: "emit fd (xs @ ys) st = emit fd ys (emit fd xs st)"
  by (induction xs arbitrary: st) (auto split: prod.splits)

lemma tally_all_literals:
  "tally_all (map (write_literal fd) xs) st = Inr (emit fd xs st)"
proof (induction xs arbitrary: st)
  case Nil
  show ?case by simp
next
  case (Cons x xs)
  have "emit fd (x # xs) st = emit fd xs (emit fd [x] st)"
    using emit_append [of fd "[x]" xs st] by simp
  then show ?case using Cons by (simp add: tally_literal del: emit.simps)
qed

lemma frame_writers_eq: "frame_writers fd f = map (write_literal fd) (frame_pieces f)"
  by (simp add: frame_writers_def frame_pieces_def write_ptr_val_eq)

lemma header_writers_eq:
  "[write_literal fd ''Signal: '',
    write_int32_val fd signal_num,
    write_literal fd ''\<newline>Timestamp: '',
    write_int32_val fd (ucast timestamp),
    write_literal fd ''\<newline>ThreadID: '',
    write_uint64_val fd thread_id,
    write_literal fd ''\<newline>Frames_count: '',
    write_int32_val fd frame_count,
    write_literal fd ''\<newline>Frames (raw addresses):\<newline>''] =
   map (write_literal fd) (header_pieces signal_num timestamp thread_id frame_count)"
  by (simp add: header_pieces_def write_int32_val_eq write_uint64_val_eq)

text \<open>The composer in terms of \<open>emit\<close>.\<close>

lemma composer_eq:
  "0 \<le> fd \<Longrightarrow>
   write_minimal_crash_info_c fd signal_num timestamp thread_id frames frame_count s =
     bindr (frames_loop fd frames (sint frame_count) 0
              (emit fd (header_pieces signal_num timestamp thread_id frame_count) (s, 0)))
       (\<lambda>st. case emit fd [end_marker] st of
               (s', total_written) \<Rightarrow>
                 Inr (if 0 < total_written then total_written else - 1, fsync fd s'))"
  unfolding write_minimal_crash_info_c_def header_writers_eq tally_all_literals tally_literal
  by (simp del: emit.simps)

subsection \<open>Any behaviour of the destination\<close>

lemma sys_write_facts:
  assumes "sys_write fd s x = (r, s')"
  shows "log s' = log s @ [(x, r)]" "behaviour s' = behaviour s" "synced s' = synced s"
    "r \<le> int (length x)" "- 1 \<le> r"
  using assms by (auto simp: sys_write_def Let_def split: wbeh.splits if_splits)

lemma emit_log:
  "\<exists>new. log (fst (emit fd xs st)) = log (fst st) @ new \<and> map fst new = xs \<and>
         snd (emit fd xs st) = snd st + gain new \<and>
         behaviour (fst (emit fd xs st)) = behaviour (fst st) \<and>
         synced (fst (emit fd xs st)) = synced (fst st) \<and>
         int (length (emitted new)) = gain new \<and>
         gain new \<le> int (length (concat xs))"
proof (induction xs arbitrary: st)
  case Nil
  show ?case by simp
next
  case (Cons x xs)
  obtain r s' where w: "sys_write fd (fst st) x = (r, s')" by (cases "sys_write fd (fst st) x")
  define st' where "st' = (s', if 0 < r then snd st + r else snd st)"
  have e: "emit fd (x # xs) st = emit fd xs st'" by (simp add: w st'_def)
  obtain new where n: "log (fst (emit fd xs st')) = log (fst st') @ new" "map fst new = xs"
      "snd (emit fd xs st') = snd st' + gain new"
      "behaviour (fst (emit fd xs st')) = behaviour (fst st')"
      "synced (fst (emit fd xs st')) = synced (fst st')"
      "int (length (emitted new)) = gain new" "gain new \<le> int (length (concat xs))"
    using Cons [of st'] by blast
  show ?case
    unfolding e
    using n sys_write_facts [OF w]
    by (intro exI [of _ "(x, r) # new"]) (auto simp: st'_def)
qed

lemma frame_line_length: "length (concat (frame_pieces f)) \<le> 21"
  using length_ptr_text [of f] by (simp add: frame_pieces_def ptr_text_def)

lemma frames_loop_unfold:
  assumes "int i < n" "n \<le> int (length frames)"
  shows "frames_loop fd frames n (int i) st =
           (if 4000 < snd (emit fd (frame_pieces (frames ! i)) st)
            then Inr (emit fd (frame_pieces (frames ! i)) st)
            else frames_loop fd frames n (int (Suc i)) (emit fd (frame_pieces (frames ! i)) st))"
proof -
  have "frame_at frames (int i) = Inr (frames ! i)"
    using assms by (simp add: frame_at_def)
  then show ?thesis
    using assms(1)
    by (subst frames_loop.simps)
       (simp add: frame_writers_eq tally_all_literals add.commute del: emit.simps)
qed

lemma frames_loop_done: "\<not> i < n \<Longrightarrow> frames_loop fd frames n i st = Inr st"
  by (subst frames_loop.simps) simp

lemma frames_loop_log:
  assumes "n \<le> int (length frames)"
  shows "\<exists>new k s' t'. frames_loop fd frames n (int i) (s, t) = Inr (s', t') \<and>
           log s' = log s @ new \<and>
           map fst new = concat (map frame_pieces (take k (drop i frames))) \<and>
           t' = t + gain new \<and> behaviour s' = behaviour s \<and> synced s' = synced s \<and>
           int (length (emitted new)) = gain new \<and>
           int i + int k \<le> max n (int i) \<and>
           (int i + int k < n \<longrightarrow> 4000 < t') \<and>
           (t \<le> 4000 \<longrightarrow> t' \<le> 4021)"
proof (induction "nat (n - int i)" arbitrary: i s t rule: less_induct)
  case less
  show ?case
  proof (cases "int i < n")
    case False
    then show ?thesis
      by (intro exI [of _ "[]"] exI [of _ 0]) (simp add: frames_loop_done)
  next
    case True
    define f where "f = frames ! i"
    define st1 where "st1 = emit fd (frame_pieces f) (s, t)"
    obtain new1 where n1: "log (fst st1) = log s @ new1" "map fst new1 = frame_pieces f"
        "snd st1 = t + gain new1" "behaviour (fst st1) = behaviour s"
        "synced (fst st1) = synced s" "int (length (emitted new1)) = gain new1"
        "gain new1 \<le> int (length (concat (frame_pieces f)))"
      using emit_log [of fd "frame_pieces f" "(s, t)"] unfolding st1_def by auto
    have g21: "gain new1 \<le> 21" using n1(7) frame_line_length [of f] by simp
    have il: "i < length frames" using True assms by simp
    have dr: "drop i frames = f # drop (Suc i) frames"
      using il by (simp add: f_def Cons_nth_drop_Suc)
    have un: "frames_loop fd frames n (int i) (s, t) =
           (if 4000 < snd st1 then Inr st1 else frames_loop fd frames n (int (Suc i)) st1)"
      unfolding st1_def f_def using True assms by (rule frames_loop_unfold)
    show ?thesis
    proof (cases "4000 < snd st1")
      case True
      have "frames_loop fd frames n (int i) (s, t) = Inr (fst st1, snd st1)"
        using un True by simp
      then show ?thesis
        using n1 True \<open>int i < n\<close> g21
        by (intro exI [of _ new1] exI [of _ 1] exI [of _ "fst st1"] exI [of _ "snd st1"])
           (simp add: dr)
    next
      case False
      have m: "nat (n - int (Suc i)) < nat (n - int i)" using \<open>int i < n\<close> by simp
      obtain new2 k2 s' t' where n2:
          "frames_loop fd frames n (int (Suc i)) (fst st1, snd st1) = Inr (s', t')"
          "log s' = log (fst st1) @ new2"
          "map fst new2 = concat (map frame_pieces (take k2 (drop (Suc i) frames)))"
          "t' = snd st1 + gain new2" "behaviour s' = behaviour (fst st1)"
          "synced s' = synced (fst st1)" "int (length (emitted new2)) = gain new2"
          "int (Suc i) + int k2 \<le> max n (int (Suc i))"
          "int (Suc i) + int k2 < n \<longrightarrow> 4000 < t'"
          "snd st1 \<le> 4000 \<longrightarrow> t' \<le> 4021"
        using less [OF m, of "fst st1" "snd st1"] by blast
      have "frames_loop fd frames n (int i) (s, t) = Inr (s', t')"
        using un False n2(1) by simp
      then show ?thesis
        using n1 n2 False \<open>int i < n\<close>
        by (intro exI [of _ "new1 @ new2"] exI [of _ "Suc k2"] exI [of _ s'] exI [of _ t'])
           (simp add: dr)
    qed
  qed
qed

subsection \<open>A destination that takes every byte\<close>

lemma full_log_simps [simp]:
  "full_log [] = []" "full_log (x # xs) = (x, int (length x)) # full_log xs"
  "full_log (xs @ ys) = full_log xs @ full_log ys"
  by (simp_all add: full_log_def)

lemma emitted_full_log [simp]: "emitted (full_log xs) = concat xs"
  by (induction xs) simp_all

lemma gain_full_log [simp]: "gain (full_log xs) = int (length (concat xs))"
  by (induction xs) simp_all

lemma map_fst_full_log [simp]: "map fst (full_log xs) = xs"
  by (induction xs) simp_all

lemma emit_full:
  assumes "\<forall>k. behaviour s k = Full" "0 \<le> fd"
  shows "emit fd xs (s, t) = (s\<lparr>log := log s @ full_log xs\<rparr>, t + int (length (concat xs)))"
  using assms(1)
proof (induction xs arbitrary: s t)
  case Nil
  show ?case by simp
next
  case (Cons x xs)
  have w: "sys_write fd s x = (int (length x), s\<lparr>log := log s @ [(x, int (length x))]\<rparr>)"
    using Cons.prems assms(2) by (simp add: sys_write_def Let_def)
  have "\<forall>k. behaviour (s\<lparr>log := log s @ [(x, int (length x))]\<rparr>) k = Full"
    using Cons.prems by simp
  from Cons.IH [OF this] show ?case
    by (simp add: w)
qed

lemma frame_lines_simps [simp]:
  "frame_lines [] = []" "frame_lines (f # fs) = concat (frame_pieces f) @ frame_lines fs"
  by (simp_all add: frame_lines_def)

lemma frames_loop_full:
  assumes "0 \<le> fd" "n \<le> int (length frames)"
  shows "\<forall>k. behaviour s k = Full \<Longrightarrow>
         \<exists>k. frames_loop fd frames n (int i) (s, t) =
               Inr (emit fd (concat (map frame_pieces (take k (drop i frames)))) (s, t)) \<and>
             int i + int k \<le> max n (int i) \<and>
             (int i + int k < n \<longrightarrow>
                4000 < t + int (length (frame_lines (take k (drop i frames))))) \<and>
             (\<forall>j. 0 < j \<and> j < k \<longrightarrow>
                t + int (length (frame_lines (take j (drop i frames)))) \<le> 4000)"
proof (induction "nat (n - int i)" arbitrary: i s t rule: less_induct)
  case less
  show ?case
  proof (cases "int i < n")
    case False
    then show ?thesis
      by (intro exI [of _ 0]) (simp add: frames_loop_done)
  next
    case True
    define f where "f = frames ! i"
    define s1 where "s1 = s\<lparr>log := log s @ full_log (frame_pieces f)\<rparr>"
    define t1 where "t1 = t + int (length (concat (frame_pieces f)))"
    have e1: "emit fd (frame_pieces f) (s, t) = (s1, t1)"
      using emit_full [OF less.prems assms(1)] by (simp add: s1_def t1_def)
    have full1: "\<forall>k. behaviour s1 k = Full" using less.prems by (simp add: s1_def)
    have il: "i < length frames" using True assms by simp
    have dr: "drop i frames = f # drop (Suc i) frames"
      using il by (simp add: f_def Cons_nth_drop_Suc)
    have un: "frames_loop fd frames n (int i) (s, t) =
           (if 4000 < t1 then Inr (s1, t1) else frames_loop fd frames n (int (Suc i)) (s1, t1))"
      using frames_loop_unfold [OF True assms(2), of fd "(s, t)"] unfolding f_def [symmetric] e1
      by simp
    show ?thesis
    proof (cases "4000 < t1")
      case True
      then show ?thesis
        using un e1 \<open>int i < n\<close>
        by (intro exI [of _ 1]) (simp add: dr t1_def)
    next
      case False
      have m: "nat (n - int (Suc i)) < nat (n - int i)" using \<open>int i < n\<close> by simp
      obtain k2 where k2:
          "frames_loop fd frames n (int (Suc i)) (s1, t1) =
             Inr (emit fd (concat (map frame_pieces (take k2 (drop (Suc i) frames)))) (s1, t1))"
          "int (Suc i) + int k2 \<le> max n (int (Suc i))"
          "int (Suc i) + int k2 < n \<longrightarrow>
             4000 < t1 + int (length (frame_lines (take k2 (drop (Suc i) frames))))"
          "\<forall>j. 0 < j \<and> j < k2 \<longrightarrow>
             t1 + int (length (frame_lines (take j (drop (Suc i) frames)))) \<le> 4000"
        using less.hyps [OF m full1, of t1] by blast
      have em: "emit fd (concat (map frame_pieces (take (Suc k2) (drop i frames)))) (s, t) =
          emit fd (concat (map frame_pieces (take k2 (drop (Suc i) frames)))) (s1, t1)"
        by (simp add: dr emit_append e1 del: emit.simps)
      have small: "t + int (length (frame_lines (take j (drop i frames)))) \<le> 4000"
        if "0 < j" "j < Suc k2" for j
      proof (cases j)
        case 0
        with that show ?thesis by simp
      next
        case (Suc j')
        show ?thesis
        proof (cases "j' = 0")
          case True
          then show ?thesis using False by (simp add: Suc dr t1_def)
        next
          case False
          then have "t1 + int (length (frame_lines (take j' (drop (Suc i) frames)))) \<le> 4000"
            using k2(4) that Suc by simp
          then show ?thesis by (simp add: Suc dr t1_def)
        qed
      qed
      have "frames_loop fd frames n (int i) (s, t) =
          Inr (emit fd (concat (map frame_pieces (take (Suc k2) (drop i frames)))) (s, t))"
        using un False k2(1) em by simp
      moreover have "int i + int (Suc k2) \<le> max n (int i)" using k2(2) \<open>int i < n\<close> by simp
      moreover have "int i + int (Suc k2) < n \<longrightarrow>
          4000 < t + int (length (frame_lines (take (Suc k2) (drop i frames))))"
        using k2(3) by (auto simp: dr t1_def)
      ultimately show ?thesis
        using small by (intro exI [of _ "Suc k2"]) blast
    qed
  qed
qed

subsection \<open>Sizes and characters of the pieces\<close>

lemma length_i32_text_le: "length (i32_text v) \<le> 11"
  using length_i32_text [of v] by (simp add: i32_text_def)

lemma length_u64_text_le: "length (u64_text v) \<le> 20"
  using length_u64_text [of v] by (simp add: u64_text_def)

lemma header_length:
  "0 < length (concat (header_pieces sig ts tid fc))"
  "length (concat (header_pieces sig ts tid fc)) \<le> 124"
  using length_i32_text_le [of sig] length_i32_text_le [of "ucast ts"] length_i32_text_le [of fc]
    length_u64_text_le [of tid]
  by (simp_all add: header_pieces_def)

lemma end_marker_length [simp]: "length end_marker = 29"
  by (simp add: end_marker_def)

lemma digit_char_not_C: "d < 10 \<Longrightarrow> digit_char d \<noteq> CHR ''C''"
proof
  assume "d < 10" "digit_char d = CHR ''C''"
  then have "(of_char (digit_char d) :: nat) = of_char CHR ''C''" by simp
  then show False using \<open>d < 10\<close> by (simp add: digit_char_def)
qed

lemma C_notin_dec: "CHR ''C'' \<notin> set (map digit_char (rdigits 10 n))"
proof
  assume "CHR ''C'' \<in> set (map digit_char (rdigits 10 n))"
  then obtain d where "d \<in> set (rdigits 10 n)" "digit_char d = CHR ''C''" by auto
  then show False using rdigits_less [of 10 d n] digit_char_not_C [of d] by simp
qed

lemma C_notin_hex: "CHR ''C'' \<notin> set (map ((!) hex_chars) (rdigits 16 n))"
proof
  assume "CHR ''C'' \<in> set (map ((!) hex_chars) (rdigits 16 n))"
  then obtain d where d: "d \<in> set (rdigits 16 n)" "hex_chars ! d = CHR ''C''" by auto
  then have "d < 16" using rdigits_less [of 16 d n] by simp
  then have "hex_chars ! d \<in> set hex_chars" by (intro nth_mem) (simp add: hex_chars_def)
  then show False using d(2) by (simp add: hex_chars_def)
qed

lemma C_notin_i32_text: "CHR ''C'' \<notin> set (i32_text v)"
  using C_notin_dec by (auto simp: i32_text_def itoa_rtext_def)

lemma C_notin_u64_text: "CHR ''C'' \<notin> set (u64_text v)"
  using C_notin_dec by (auto simp: u64_text_def ulltoa_rtext_def)

lemma C_notin_ptr_text: "CHR ''C'' \<notin> set (ptr_text v)"
  using C_notin_hex by (auto simp: ptr_text_def hex_rtext_19)

lemma C_notin_header: "CHR ''C'' \<notin> set (concat (header_pieces sig ts tid fc))"
  using C_notin_i32_text C_notin_u64_text by (simp add: header_pieces_def)

lemma C_notin_frame_lines: "CHR ''C'' \<notin> set (frame_lines fs)"
proof (induction fs)
  case Nil
  show ?case by simp
next
  case (Cons f fs)
  then show ?case using C_notin_ptr_text [of f] by (simp add: frame_pieces_def)
qed

lemma end_marker_C: "list_all (\<lambda>i. (end_marker ! i = CHR ''C'') = (i = 4)) [0..<29]"
  by code_simp

lemma marker_once:
  assumes "CHR ''C'' \<notin> set pre"
  shows "occurrences end_marker (pre @ end_marker) = 1"
proof -
  define s where "s = pre @ end_marker"
  have iff: "(take (length end_marker) (drop i s) = end_marker) = (i = length pre)" for i
  proof
    assume "i = length pre"
    then show "take (length end_marker) (drop i s) = end_marker" by (simp add: s_def)
  next
    assume m: "take (length end_marker) (drop i s) = end_marker"
    then have "length (take (length end_marker) (drop i s)) = 29" by simp
    then have le: "i + 29 \<le> length s" by simp
    then have i: "i \<le> length pre" by (simp add: s_def)
    have "take (length end_marker) (drop i s) ! 4 = end_marker ! 4" using m by simp
    then have "s ! (i + 4) = CHR ''C''" using le end_marker_C by (simp add: list_all_iff)
    moreover have "i + 4 < length pre \<Longrightarrow> s ! (i + 4) \<in> set pre"
      by (simp add: s_def nth_append)
    ultimately have ge: "length pre \<le> i + 4" using assms by (cases "i + 4 < length pre") auto
    then have "end_marker ! (i + 4 - length pre) = CHR ''C''"
      using \<open>s ! (i + 4) = CHR ''C''\<close> by (simp add: s_def nth_append)
    moreover have "i + 4 - length pre < 29" using i by simp
    ultimately have "i + 4 - length pre = 4" using end_marker_C by (simp add: list_all_iff)
    then show "i = length pre" using ge by simp
  qed
  have "occurrences end_marker s =
      card ({i. take (length end_marker) (drop i s) = end_marker} \<inter> set [0..<Suc (length s)])"
    unfolding occurrences_def by (rule distinct_length_filter) simp
  also have "{i. take (length end_marker) (drop i s) = end_marker} \<inter> set [0..<Suc (length s)] =
      {length pre}"
    using iff by (auto simp: s_def)
  finally show ?thesis by (simp add: s_def)
qed

subsection \<open>The whole call\<close>

lemma composer_invalid:
  "fd < 0 \<Longrightarrow>
   write_minimal_crash_info_c fd signal_num timestamp thread_id frames frame_count s = Inr (- 1, s)"
  by (simp add: write_minimal_crash_info_c_def)

lemma composer_log:
  assumes "0 \<le> fd" "sint fc \<le> int (length frames)"
  shows "\<exists>new k s'.
           write_minimal_crash_info_c fd sig ts tid frames fc s =
             Inr (if 0 < gain new then gain new else - 1, s') \<and>
           log s' = log s @ new \<and>
           map fst new = header_pieces sig ts tid fc @
                         concat (map frame_pieces (take k frames)) @ [end_marker] \<and>
           int k \<le> max (sint fc) 0 \<and>
           (int k < sint fc \<longrightarrow> 4000 < gain (butlast new)) \<and>
           behaviour s' = behaviour s \<and> synced s' = Suc (synced s) \<and>
           int (length (emitted new)) = gain new \<and>
           gain new \<le> 4050"
proof -
  define hp where "hp = header_pieces sig ts tid fc"
  define st0 where "st0 = emit fd hp (s, 0)"
  obtain newh where h: "log (fst st0) = log s @ newh" "map fst newh = hp"
      "snd st0 = gain newh" "behaviour (fst st0) = behaviour s" "synced (fst st0) = synced s"
      "int (length (emitted newh)) = gain newh" "gain newh \<le> int (length (concat hp))"
    using emit_log [of fd hp "(s, 0)"] unfolding st0_def by auto
  have h124: "snd st0 \<le> 4000" using h(3,7) header_length(2) [of sig ts tid fc] by (simp add: hp_def)
  obtain newf k s1 t1 where f:
      "frames_loop fd frames (sint fc) (int 0) (fst st0, snd st0) = Inr (s1, t1)"
      "log s1 = log (fst st0) @ newf"
      "map fst newf = concat (map frame_pieces (take k (drop 0 frames)))"
      "t1 = snd st0 + gain newf" "behaviour s1 = behaviour (fst st0)"
      "synced s1 = synced (fst st0)" "int (length (emitted newf)) = gain newf"
      "int 0 + int k \<le> max (sint fc) (int 0)"
      "int 0 + int k < sint fc \<longrightarrow> 4000 < t1"
      "snd st0 \<le> 4000 \<longrightarrow> t1 \<le> 4021"
    using frames_loop_log [OF assms(2), of fd 0 "fst st0" "snd st0"] by blast
  define st2 where "st2 = emit fd [end_marker] (s1, t1)"
  obtain newm where m: "log (fst st2) = log s1 @ newm" "map fst newm = [end_marker]"
      "snd st2 = t1 + gain newm" "behaviour (fst st2) = behaviour s1"
      "synced (fst st2) = synced s1" "int (length (emitted newm)) = gain newm"
      "gain newm \<le> int (length (concat [end_marker]))"
    using emit_log [of fd "[end_marker]" "(s1, t1)"] unfolding st2_def by auto
  have bl: "butlast (newh @ newf @ newm) = newh @ newf"
    using m(2) by (cases newm) (simp_all add: butlast_append)
  have call: "write_minimal_crash_info_c fd sig ts tid frames fc s =
      Inr (if 0 < snd st2 then snd st2 else - 1, fsync fd (fst st2))"
    unfolding composer_eq [OF assms(1)] hp_def [symmetric] st0_def [symmetric]
    using f(1) by (simp add: st2_def split: prod.splits del: emit.simps)
  show ?thesis
    unfolding call
    using h f m h124 bl
    by (intro exI [of _ "newh @ newf @ newm"] exI [of _ k] exI [of _ "fsync fd (fst st2)"])
       (simp add: hp_def fsync_def)
qed

lemma composer_full:
  assumes "\<forall>k. behaviour s k = Full" "0 \<le> fd" "sint fc \<le> int (length frames)"
  shows "\<exists>k. int k \<le> max (sint fc) 0 \<and>
           write_minimal_crash_info_c fd sig ts tid frames fc s =
             Inr (int (length (report_text sig ts tid fc (take k frames))),
                  fsync fd (s\<lparr>log := log s @
                     full_log (header_pieces sig ts tid fc @
                               concat (map frame_pieces (take k frames)) @ [end_marker])\<rparr>)) \<and>
           (int k < sint fc \<longrightarrow>
              4000 < int (length (concat (header_pieces sig ts tid fc) @
                                  frame_lines (take k frames)))) \<and>
           (\<forall>j. 0 < j \<and> j < k \<longrightarrow>
              int (length (concat (header_pieces sig ts tid fc) @
                           frame_lines (take j frames))) \<le> 4000)"
proof -
  define hp where "hp = header_pieces sig ts tid fc"
  define s0 where "s0 = s\<lparr>log := log s @ full_log hp\<rparr>"
  define t0 where "t0 = int (length (concat hp))"
  have e0: "emit fd hp (s, 0) = (s0, t0)"
    using emit_full [OF assms(1,2), of hp 0] by (simp add: s0_def t0_def)
  have full0: "\<forall>k. behaviour s0 k = Full" using assms(1) by (simp add: s0_def)
  obtain k where k:
      "frames_loop fd frames (sint fc) (int 0) (s0, t0) =
         Inr (emit fd (concat (map frame_pieces (take k (drop 0 frames)))) (s0, t0))"
      "int 0 + int k \<le> max (sint fc) (int 0)"
      "int 0 + int k < sint fc \<longrightarrow>
         4000 < t0 + int (length (frame_lines (take k (drop 0 frames))))"
      "\<forall>j. 0 < j \<and> j < k \<longrightarrow>
         t0 + int (length (frame_lines (take j (drop 0 frames)))) \<le> 4000"
    using frames_loop_full [OF assms(2,3) full0, of 0 t0] by blast
  define fp where "fp = concat (map frame_pieces (take k frames))"
  define s1 where "s1 = s\<lparr>log := log s @ full_log (hp @ fp)\<rparr>"
  define t1 where "t1 = int (length (concat (hp @ fp)))"
  define s2 where "s2 = s\<lparr>log := log s @ full_log (hp @ fp @ [end_marker])\<rparr>"
  define t2 where "t2 = int (length (concat (hp @ fp @ [end_marker])))"
  have cf: "concat fp = frame_lines (take k frames)" by (simp add: fp_def frame_lines_def)
  have e1: "emit fd fp (s0, t0) = (s1, t1)"
    using emit_full [OF full0 assms(2), of fp t0] by (simp add: s0_def t0_def s1_def t1_def)
  have full1: "\<forall>k. behaviour s1 k = Full"
    using assms(1) by (simp add: s1_def)
  have e2: "emit fd [end_marker] (s1, t1) = (s2, t2)"
    using emit_full [OF full1 assms(2), of "[end_marker]" t1]
    by (simp add: s1_def t1_def s2_def t2_def)
  have lp: "frames_loop fd frames (sint fc) 0 (s0, t0) = Inr (s1, t1)"
    using k(1) e1 by (simp add: fp_def del: emit.simps)
  have rt: "t2 = int (length (report_text sig ts tid fc (take k frames)))"
    by (simp add: t2_def report_text_def hp_def cf)
  have pos: "0 < t2"
    by (simp add: t2_def)
  have "write_minimal_crash_info_c fd sig ts tid frames fc s =
      Inr (if 0 < t2 then t2 else - 1, fsync fd s2)"
    unfolding composer_eq [OF assms(2)] hp_def [symmetric] e0 lp bindr_Inr e2 split ..
  then have call: "write_minimal_crash_info_c fd sig ts tid frames fc s =
      Inr (int (length (report_text sig ts tid fc (take k frames))),
           fsync fd (s\<lparr>log := log s @ full_log (hp @ fp @ [end_marker])\<rparr>))"
    using pos by (simp add: rt s2_def)
  show ?thesis
    using call k(2,3,4)
    by (intro exI [of _ k]) (simp add: hp_def fp_def t0_def)
qed

lemma uint_ucast32: "uint (ucast ts :: 32 word) = uint ts mod 2 ^ 32" for ts :: "64 word"
  by (simp add: unsigned_ucast_eq take_bit_eq_mod)

lemma mod_wrap: "(m::int) \<le> a \<Longrightarrow> a < 2 * m \<Longrightarrow> a mod m = a - m"
proof -
  assume "m \<le> a" "a < 2 * m"
  then have "(a - m) mod m = a - m" by (intro mod_pos_pos_trivial) simp_all
  then show ?thesis by simp
qed

lemma sint32_uint: "sint w = (if uint w < 2 ^ 31 then uint w else uint w - 2 ^ 32)" for w :: "32 word"
proof -
  have s: "sint w = (uint w + 2 ^ 31) mod 2 ^ 32 - 2 ^ 31"
    using int_word_sint [of "uint w", where 'a = 32] by simp
  have b: "0 \<le> uint w" "uint w < 2 ^ 32" using uint_lt2p [of w] by simp_all
  show ?thesis
  proof (cases "uint w < 2 ^ 31")
    case True
    then have "(uint w + 2 ^ 31) mod 2 ^ 32 = uint w + 2 ^ 31"
      using b by (intro mod_pos_pos_trivial) simp_all
    then show ?thesis using True s by simp
  next
    case False
    then have "(uint w + 2 ^ 31) mod 2 ^ 32 = uint w + 2 ^ 31 - 2 ^ 32"
      using b by (intro mod_wrap) simp_all
    then show ?thesis using False s by simp
  qed
qed

lemma sint_narrow: "sint (ucast ts :: 32 word) = narrow32 ts"
  by (simp add: sint32_uint uint_ucast32 narrow32_def)

lemma narrow_min: "(ucast ts :: 32 word) = INT32_MIN \<longleftrightarrow> narrow32 ts = - (2 ^ 31)"
proof
  assume "(ucast ts :: 32 word) = INT32_MIN"
  then have "sint (ucast ts :: 32 word) = sint INT32_MIN" by simp
  then show "narrow32 ts = - (2 ^ 31)" by (simp add: sint_narrow INT32_MIN_def)
next
  assume "narrow32 ts = - (2 ^ 31)"
  then have "sint (ucast ts :: 32 word) = - (2 ^ 31)" by (simp add: sint_narrow)
  then have "word_of_int (sint (ucast ts :: 32 word)) = (word_of_int (- (2 ^ 31)) :: 32 word)"
    by simp
  then show "(ucast ts :: 32 word) = INT32_MIN" by (simp add: INT32_MIN_def)
qed

subsection \<open>\<open>minimal_itoa_for_signals\<close> at any capacity\<close>







section \<open>The claims\<close>

subsection \<open>Concrete texts and auxiliary facts\<close>


lemma digit_chars:
  "digit_char 0 = CHR ''0''" "digit_char 1 = CHR ''1''" "digit_char 2 = CHR ''2''"
  "digit_char 3 = CHR ''3''" "digit_char 4 = CHR ''4''" "digit_char 5 = CHR ''5''"
  "digit_char 6 = CHR ''6''" "digit_char 7 = CHR ''7''" "digit_char 8 = CHR ''8''"
  "digit_char 9 = CHR ''9''" "digit_char (Suc 0) = CHR ''1''"
  by code_simp+

lemma example_texts:
  "i32_text 11 = ''11''"
  "i32_text 2 = ''2''"
  "i32_text 0 = ''0''"
  "i32_text 10000 = ''10000''"
  "i32_text (ucast (1700000000 :: 64 word)) = ''1700000000''"
  "i32_text 1700000000 = ''1700000000''"
  "u64_text 123456789012 = ''123456789012''"
  "u64_text 1 = ''1''"
  "ptr_text 0xDEADBEEF = ''0xdeadbeef''"
  by (simp_all add: i32_text_eq u64_text_eq ptr_text_eq INT32_MIN_def dec_int_def
      dec_nat.simps hex_nat.simps hex_chars_def digit_chars)

lemma example_min:
  "(ucast (0x80000000 :: 64 word) :: 32 word) = INT32_MIN"
  "(- 2147483648 :: 32 word) = INT32_MIN"
  "narrow32 0x80000000 = - 2147483648"
  "sint (- 2147483648 :: 32 word) = - 2147483648"
  "dec_int (- 2147483648) = ''-2147483648''"
  by (simp_all add: INT32_MIN_def narrow32_def dec_int_def dec_nat.simps digit_chars)

lemma fsync_log [simp]: "log (fsync fd s) = log s"
  by (simp add: fsync_def)

lemma frame_line_lengths:
  "length (frame_lines fs) \<le> 21 * length fs"
proof (induction fs)
  case Nil
  show ?case by simp
next
  case (Cons f fs)
  then show ?case using frame_line_length [of f] by simp
qed

lemma frame_lines_nil: "length (frame_lines (replicate n 0)) = 12 * n"
  by (induction n) (simp_all add: frame_pieces_def)

lemma composer_ideal:
  assumes "sint fc \<le> 0"
  shows "requested (write_minimal_crash_info_c 3 sig ts tid [] fc ideal_sink) =
           header_pieces sig ts tid fc @ [end_marker]"
proof -
  have 1: "\<forall>k. behaviour ideal_sink k = Full" by (simp add: ideal_sink_def)
  have 3: "sint fc \<le> int (length ([] :: uintptr_t list))" using assms by simp
  obtain k where "write_minimal_crash_info_c 3 sig ts tid [] fc ideal_sink =
       Inr (int (length (report_text sig ts tid fc (take k []))),
            fsync 3 (ideal_sink\<lparr>log := log ideal_sink @ full_log (header_pieces sig ts tid fc @
               concat (map frame_pieces (take k [])) @ [end_marker])\<rparr>))"
    using composer_full [OF 1 _ 3, of 3 sig ts tid] by auto
  then show ?thesis
    by (simp add: requested_def ideal_sink_def del: full_log_simps)
qed

lemma composer_full_emitted:
  assumes "\<forall>k. behaviour s k = Full" "0 \<le> fd" "sint fc \<le> int (length frames)"
    and "write_minimal_crash_info_c fd sig ts tid frames fc s = Inr (ret, s')"
    and "log s' = log s @ new"
  shows "emitted new = concat (map fst new)" and "ret = int (length (emitted new))"
proof -
  obtain k where "write_minimal_crash_info_c fd sig ts tid frames fc s =
       Inr (int (length (report_text sig ts tid fc (take k frames))),
            fsync fd (s\<lparr>log := log s @ full_log (header_pieces sig ts tid fc @
               concat (map frame_pieces (take k frames)) @ [end_marker])\<rparr>))"
    using composer_full [OF assms(1-3), of sig ts tid] by blast
  then have r: "ret = int (length (report_text sig ts tid fc (take k frames)))"
    and "log s' = log s @ full_log (header_pieces sig ts tid fc @
               concat (map frame_pieces (take k frames)) @ [end_marker])"
    using assms(4) by simp_all
  then have n: "new = full_log (header_pieces sig ts tid fc @
               concat (map frame_pieces (take k frames)) @ [end_marker])"
    using assms(5) by simp
  show "emitted new = concat (map fst new)"
    unfolding n by (simp only: emitted_full_log map_fst_full_log)
  have "emitted new = report_text sig ts tid fc (take k frames)"
    unfolding n by (simp add: report_text_def frame_lines_def)
  then show "ret = int (length (emitted new))" using r by simp
qed

subsection \<open>Claim C1\<close>

text \<open>
  C1. With a valid destination that takes every byte, the call with signal 11, timestamp
  1700000000, thread 123456789012, frames \<open>[0xDEADBEEF, NULL]\<close> and count 2 adds exactly
  the text of the example to the destination and returns its length, 150.
\<close>

theorem C1_example_report:
  "0 \<le> fd \<Longrightarrow> \<forall>k. behaviour s k = Full \<Longrightarrow>
   \<exists>s'. write_minimal_crash_info_c fd 11 1700000000 123456789012 [0xDEADBEEF, 0] 2 s =
           Inr (int (length ''Signal: 11\<newline>Timestamp: 1700000000\<newline>ThreadID: 123456789012\<newline>Frames_count: 2\<newline>Frames (raw addresses):\<newline>  0xdeadbeef\<newline>  0x0 (nil)\<newline>--- C Minimal Report End ---\<newline>''), s') \<and>
        emitted (log s') = emitted (log s) @
          ''Signal: 11\<newline>Timestamp: 1700000000\<newline>ThreadID: 123456789012\<newline>Frames_count: 2\<newline>Frames (raw addresses):\<newline>  0xdeadbeef\<newline>  0x0 (nil)\<newline>--- C Minimal Report End ---\<newline>''"
proof -
  assume fd: "0 \<le> fd" and full: "\<forall>k. behaviour s k = Full"
  define frames :: "uintptr_t list" where "frames = [0xDEADBEEF, 0]"
  define hp where "hp = header_pieces 11 1700000000 123456789012 2"
  have len: "sint (2 :: 32 word) \<le> int (length frames)" by (simp add: frames_def)
  obtain k where k: "int k \<le> max (sint (2 :: 32 word)) 0"
    "write_minimal_crash_info_c fd 11 1700000000 123456789012 frames 2 s =
       Inr (int (length (report_text 11 1700000000 123456789012 2 (take k frames))),
            fsync fd (s\<lparr>log := log s @ full_log (hp @
               concat (map frame_pieces (take k frames)) @ [end_marker])\<rparr>))"
    "int k < sint (2 :: 32 word) \<longrightarrow>
       4000 < int (length (concat hp @ frame_lines (take k frames)))"
    using composer_full [OF full fd len, of 11 1700000000 123456789012] unfolding hp_def by blast
  have "int (length (concat hp @ frame_lines (take k frames))) \<le> 124 + 21 * 2"
    using header_length(2) [of 11 1700000000 123456789012 2]
      frame_line_lengths [of "take k frames"]
    by (simp add: hp_def frames_def)
  then have "k = 2" using k(1,3) by simp
  then have tk: "take k frames = frames" by (simp add: frames_def)
  have rt: "report_text 11 1700000000 123456789012 2 frames =
      ''Signal: 11\<newline>Timestamp: 1700000000\<newline>ThreadID: 123456789012\<newline>Frames_count: 2\<newline>Frames (raw addresses):\<newline>  0xdeadbeef\<newline>  0x0 (nil)\<newline>--- C Minimal Report End ---\<newline>''"
    by (simp add: report_text_def header_pieces_def frames_def frame_pieces_def end_marker_def
        example_texts)
  have em: "concat hp @ concat (concat (map frame_pieces frames)) @ end_marker =
      ''Signal: 11\<newline>Timestamp: 1700000000\<newline>ThreadID: 123456789012\<newline>Frames_count: 2\<newline>Frames (raw addresses):\<newline>  0xdeadbeef\<newline>  0x0 (nil)\<newline>--- C Minimal Report End ---\<newline>''"
    using rt unfolding report_text_def hp_def frame_lines_def .
  show ?thesis
    using k(2) unfolding tk rt frames_def [symmetric]
    by (intro exI [of _ "fsync fd (s\<lparr>log := log s @ full_log (hp @
               concat (map frame_pieces frames) @ [end_marker])\<rparr>)"])
       (simp add: em del: full_log_simps)
qed

theorem C1_witness:
  "\<exists>s'. write_minimal_crash_info_c 3 11 1700000000 123456789012 [0xDEADBEEF, 0] 2 ideal_sink =
           Inr (150, s') \<and>
        emitted (log s') =
          ''Signal: 11\<newline>Timestamp: 1700000000\<newline>ThreadID: 123456789012\<newline>Frames_count: 2\<newline>Frames (raw addresses):\<newline>  0xdeadbeef\<newline>  0x0 (nil)\<newline>--- C Minimal Report End ---\<newline>''"
  using C1_example_report [of 3 ideal_sink] by (simp add: ideal_sink_def)

subsection \<open>Claim C2\<close>

text \<open>
  C2. With a negative descriptor the call returns \<open>-1\<close> and leaves the destination
  untouched: no write, no flush. With a non-negative descriptor (and a frame array that
  has \<open>frame_count\<close> entries), whatever the results of the writes are, the call passes to
  \<open>write\<close> every header piece, the pieces of the first \<open>k\<close> frames and the end marker,
  in this order, and calls \<open>fsync\<close> exactly once; the loop stops early
  (\<open>k < frame_count\<close>) only when the total has passed 4000; the value returned is the sum
  of the positive results (which is the number of bytes that reached the destination)
  when that sum is positive, and \<open>-1\<close> otherwise.
\<close>

theorem C2_return_contract:
  "(fd < 0 \<longrightarrow>
      write_minimal_crash_info_c fd sig ts tid frames fc s = Inr (- 1, s)) \<and>
   (0 \<le> fd \<and> sint fc \<le> int (length frames) \<longrightarrow>
      (\<exists>new k s'.
         write_minimal_crash_info_c fd sig ts tid frames fc s =
           Inr (if 0 < gain new then gain new else - 1, s') \<and>
         log s' = log s @ new \<and>
         map fst new = header_pieces sig ts tid fc @
                       concat (map frame_pieces (take k frames)) @ [end_marker] \<and>
         int k \<le> max (sint fc) 0 \<and>
         (int k < sint fc \<longrightarrow> 4000 < gain (butlast new)) \<and>
         int (length (emitted new)) = gain new \<and>
         synced s' = Suc (synced s) \<and>
         behaviour s' = behaviour s))"
proof (intro conjI impI)
  assume "fd < 0"
  then show "write_minimal_crash_info_c fd sig ts tid frames fc s = Inr (- 1, s)"
    by (rule composer_invalid)
next
  assume "0 \<le> fd \<and> sint fc \<le> int (length frames)"
  then have a: "0 \<le> fd" "sint fc \<le> int (length frames)" by simp_all
  show "\<exists>new k s'.
         write_minimal_crash_info_c fd sig ts tid frames fc s =
           Inr (if 0 < gain new then gain new else - 1, s') \<and>
         log s' = log s @ new \<and>
         map fst new = header_pieces sig ts tid fc @
                       concat (map frame_pieces (take k frames)) @ [end_marker] \<and>
         int k \<le> max (sint fc) 0 \<and>
         (int k < sint fc \<longrightarrow> 4000 < gain (butlast new)) \<and>
         int (length (emitted new)) = gain new \<and>
         synced s' = Suc (synced s) \<and>
         behaviour s' = behaviour s"
    using composer_log [OF a, of sig ts tid s] by blast
qed

theorem C2_witness:
  "write_minimal_crash_info_c (- 1) 11 1700000000 1 [0xDEADBEEF, 0] 2 ideal_sink =
     Inr (- 1, ideal_sink) \<and>
   (\<exists>new k s'.
      write_minimal_crash_info_c 3 11 1700000000 1 [0xDEADBEEF, 0] 2 dead_sink =
        Inr (if 0 < gain new then gain new else - 1, s') \<and>
      log s' = log dead_sink @ new \<and>
      map fst new = header_pieces 11 1700000000 1 2 @
                    concat (map frame_pieces (take k [0xDEADBEEF, 0])) @ [end_marker] \<and>
      int (length (emitted new)) = gain new \<and>
      synced s' = Suc (synced dead_sink) \<and>
      behaviour s' = behaviour dead_sink)"
proof -
  have 1: "(- 1 :: int) < 0" by simp
  have 2: "(0 :: int) \<le> 3 \<and> sint (2 :: 32 word) \<le> int (length [0xDEADBEEF, 0 :: uintptr_t])"
    by simp
  show ?thesis
    using C2_return_contract [of "- 1" 11 1700000000 1 "[0xDEADBEEF, 0]" 2 ideal_sink] 1
      C2_return_contract [of 3 11 1700000000 1 "[0xDEADBEEF, 0]" 2 dead_sink] 2
    by blast
qed

subsection \<open>Claim C3\<close>

text \<open>
  C3. With a valid destination that takes every byte and a frame array that has
  \<open>frame_count\<close> entries: if the header and the lines of the first \<open>j\<close> frames, for some
  \<open>j\<close> below \<open>frame_count\<close>, are more than 4000 bytes, then the call emits the lines of
  only the first \<open>k\<close> frames for some \<open>0 < k \<le> j\<close>, so that the frames from \<open>k\<close> on are
  not emitted; the text added to the destination is the header, these lines and the end
  marker, which occurs in it exactly once; and the value returned is the length of this
  text, positive and at most \<open>4000 + 21 + 29\<close> (21 bytes is the longest frame line, 29
  the end marker).
\<close>

theorem C3_safety_bound:
  assumes "\<forall>k. behaviour s k = Full" "0 \<le> fd" "sint fc \<le> int (length frames)"
    and "int j < sint fc"
    and "4000 < length (concat (header_pieces sig ts tid fc) @ frame_lines (take j frames))"
  shows "\<exists>k s'. 0 < k \<and> k \<le> j \<and>
           write_minimal_crash_info_c fd sig ts tid frames fc s =
             Inr (int (length (report_text sig ts tid fc (take k frames))), s') \<and>
           emitted (log s') = emitted (log s) @ report_text sig ts tid fc (take k frames) \<and>
           report_text sig ts tid fc (take k frames) =
             concat (header_pieces sig ts tid fc) @ frame_lines (take k frames) @ end_marker \<and>
           occurrences end_marker (report_text sig ts tid fc (take k frames)) = 1 \<and>
           0 < length (report_text sig ts tid fc (take k frames)) \<and>
           length (report_text sig ts tid fc (take k frames)) \<le> 4000 + 21 + 29"
proof -
  define hd where "hd = concat (header_pieces sig ts tid fc)"
  obtain k where k: "int k \<le> max (sint fc) 0"
    "write_minimal_crash_info_c fd sig ts tid frames fc s =
       Inr (int (length (report_text sig ts tid fc (take k frames))),
            fsync fd (s\<lparr>log := log s @ full_log (header_pieces sig ts tid fc @
               concat (map frame_pieces (take k frames)) @ [end_marker])\<rparr>))"
    "int k < sint fc \<longrightarrow> 4000 < int (length (hd @ frame_lines (take k frames)))"
    "\<forall>i. 0 < i \<and> i < k \<longrightarrow> int (length (hd @ frame_lines (take i frames))) \<le> 4000"
    using composer_full [OF assms(1-3), of sig ts tid] unfolding hd_def by blast
  have h124: "length hd \<le> 124" unfolding hd_def by (rule header_length(2))
  have jpos: "0 < j"
  proof (rule ccontr)
    assume "\<not> 0 < j"
    then show False using assms(5) h124 by (simp add: hd_def)
  qed
  have kj: "k \<le> j"
  proof (rule ccontr)
    assume "\<not> k \<le> j"
    then have "int (length (hd @ frame_lines (take j frames))) \<le> 4000"
      using k(4) jpos by simp
    then show False using assms(5) by (simp add: hd_def)
  qed
  have kpos: "0 < k"
  proof (rule ccontr)
    assume "\<not> 0 < k"
    then have "k = 0" by simp
    then show False using k(3) assms(4) h124 by simp
  qed
  have kl: "k \<le> length frames" using kj assms(3,4) by simp
  obtain k' where k': "k = Suc k'" using kpos by (cases k) auto
  have tk: "take k frames = take k' frames @ [frames ! k']"
    using kl by (simp add: k' take_Suc_conv_app_nth)
  have fl: "frame_lines (take k frames) =
      frame_lines (take k' frames) @ concat (frame_pieces (frames ! k'))"
    unfolding tk by (simp add: frame_lines_def)
  have before: "length (hd @ frame_lines (take k' frames)) \<le> 4000"
  proof (cases "k' = 0")
    case True
    then show ?thesis using h124 by simp
  next
    case False
    then have "int (length (hd @ frame_lines (take k' frames))) \<le> 4000"
      using k(4) k' by simp
    then show ?thesis by simp
  qed
  have bound: "length (hd @ frame_lines (take k frames)) \<le> 4000 + 21"
    using before frame_line_length [of "frames ! k'"] by (simp add: fl)
  have noC: "CHR ''C'' \<notin> set (hd @ frame_lines (take k frames))"
    using C_notin_header [of sig ts tid fc] C_notin_frame_lines [of "take k frames"]
    by (simp add: hd_def)
  have rt: "report_text sig ts tid fc (take k frames) =
      (hd @ frame_lines (take k frames)) @ end_marker"
    by (simp add: report_text_def hd_def)
  have once: "occurrences end_marker (report_text sig ts tid fc (take k frames)) = 1"
    unfolding rt using noC by (rule marker_once)
  have len: "length (report_text sig ts tid fc (take k frames)) \<le> 4000 + 21 + 29"
    using bound by (simp add: rt)
  have em: "emitted (log (fsync fd (s\<lparr>log := log s @ full_log (header_pieces sig ts tid fc @
               concat (map frame_pieces (take k frames)) @ [end_marker])\<rparr>))) =
      emitted (log s) @ report_text sig ts tid fc (take k frames)"
    by (simp add: report_text_def frame_lines_def)
  show ?thesis
    using kpos kj k(2) em once len
    by (intro exI [of _ k] exI [of _ "fsync fd (s\<lparr>log := log s @
          full_log (header_pieces sig ts tid fc @
               concat (map frame_pieces (take k frames)) @ [end_marker])\<rparr>)"])
       (simp add: rt hd_def)
qed

theorem C3_witness:
  "\<exists>k s'. 0 < k \<and> k \<le> 400 \<and>
     write_minimal_crash_info_c 3 11 1700000000 1 (replicate 10000 0) 10000 ideal_sink =
       Inr (int (length (report_text 11 1700000000 1 10000 (take k (replicate 10000 0)))), s') \<and>
     emitted (log s') =
       emitted (log ideal_sink) @ report_text 11 1700000000 1 10000 (take k (replicate 10000 0)) \<and>
     report_text 11 1700000000 1 10000 (take k (replicate 10000 0)) =
       concat (header_pieces 11 1700000000 1 10000) @
       frame_lines (take k (replicate 10000 0)) @ end_marker \<and>
     occurrences end_marker (report_text 11 1700000000 1 10000 (take k (replicate 10000 0))) = 1 \<and>
     0 < length (report_text 11 1700000000 1 10000 (take k (replicate 10000 0))) \<and>
     length (report_text 11 1700000000 1 10000 (take k (replicate 10000 0))) \<le> 4000 + 21 + 29"
proof -
  have 1: "\<forall>k. behaviour ideal_sink k = Full" by (simp add: ideal_sink_def)
  have 2: "(0::int) \<le> 3" by simp
  have 3: "sint (10000 :: 32 word) \<le> int (length (replicate 10000 (0 :: uintptr_t)))" by simp
  have 4: "int 400 < sint (10000 :: 32 word)" by simp
  have 5: "4000 < length (concat (header_pieces 11 1700000000 1 10000) @
      frame_lines (take 400 (replicate 10000 0)))"
    by (simp add: frame_lines_nil)
  show ?thesis
    by (rule C3_safety_bound [OF 1 2 3 4 5])
qed

subsection \<open>Claim C4\<close>




subsection \<open>Claim C5\<close>

text \<open>
  C5. For every 32-bit value except \<open>INT32_MIN\<close>, \<open>simple_itoa\<close> into a 12-byte buffer
  (whatever the buffer held before) yields a null-terminated text that the decimal
  parser reads back as the value.
\<close>

theorem C5_itoa_roundtrip:
  "v \<noteq> INT32_MIN \<Longrightarrow> length buf = 12 \<Longrightarrow>
   \<exists>b q s. simple_itoa v buf 12 = Inr (b, q) \<and> c_str b q = Inr s \<and> parse_int s = Some (sint v)"
  using simple_itoa_string [of buf v] by (auto simp: i32_text_eq parse_int_dec_int)

theorem C5_witness:
  "\<exists>b q s. simple_itoa (- 2147483647) (replicate 12 None) 12 = Inr (b, q) \<and>
     c_str b q = Inr s \<and> parse_int s = Some (sint (- 2147483647 :: 32 word))"
  using C5_itoa_roundtrip [of "- 2147483647" "replicate 12 None"]
  by (simp add: INT32_MIN_def)

subsection \<open>Claim C6\<close>

text \<open>
  C6. For every 64-bit value, \<open>simple_ulltoa\<close> into a 21-byte buffer yields a
  null-terminated text that the decimal parser reads back as the value.
\<close>

theorem C6_ulltoa_roundtrip:
  "length buf = 21 \<Longrightarrow>
   \<exists>b q s. simple_ulltoa v buf 21 = Inr (b, q) \<and> c_str b q = Inr s \<and> parse_nat s = Some (unat v)"
  using simple_ulltoa_string [of buf v] by (auto simp: u64_text_eq parse_nat_dec_nat)

theorem C6_witness:
  "\<exists>b q s. simple_ulltoa 18446744073709551615 (replicate 21 None) 21 = Inr (b, q) \<and>
     c_str b q = Inr s \<and> parse_nat s = Some (unat (18446744073709551615 :: 64 word))"
  using C6_ulltoa_roundtrip [of "replicate 21 None" 18446744073709551615]
  by simp

subsection \<open>Claim C7\<close>

text \<open>
  C7. For every pointer value, \<open>simple_ptr_to_hex\<close> into a 19-byte buffer yields a
  null-terminated text that starts with \<open>0x\<close>; for zero it is \<open>0x0\<close>; otherwise the rest
  consists of lowercase hexadecimal digits, most significant first (read from the left
  they give back the value), and the first of them is not \<open>0\<close>.
\<close>

theorem C7_ptr_to_hex_text:
  "length buf = 19 \<Longrightarrow>
   \<exists>b q s. simple_ptr_to_hex v buf 19 = Inr (b, q) \<and> c_str b q = Inr s \<and>
     take 2 s = ''0x'' \<and>
     (v = 0 \<longrightarrow> s = ''0x0'') \<and>
     (v \<noteq> 0 \<longrightarrow> hd (drop 2 s) \<noteq> CHR ''0'') \<and>
     set (drop 2 s) \<subseteq> set hex_chars \<and>
     parse_hex 0 (drop 2 s) = Some (unat v) \<and>
     drop 2 s = hex_nat (unat v)"
proof -
  assume "length buf = 19"
  then obtain b q where r: "simple_ptr_to_hex v buf 19 = Inr (b, q)" "c_str b q = Inr (ptr_text v)"
    using simple_ptr_to_hex_string [of buf v] by auto
  have z: "hex_nat 0 = ''0''" by (simp add: hex_nat_rdigits)
  have nz: "v \<noteq> 0 \<Longrightarrow> 0 < unat v" using unat64_eq_0 [of v] by auto
  show ?thesis
    using r z nz hex_nat_no_leading_zero [of "unat v"] hex_nat_lowercase [of _ "unat v"]
    by (auto simp: ptr_text_eq parse_hex_hex_nat)
qed

theorem C7_witness:
  "(\<exists>b q s. simple_ptr_to_hex 0xDEADBEEF (replicate 19 None) 19 = Inr (b, q) \<and>
      c_str b q = Inr s \<and> take 2 s = ''0x'' \<and> hd (drop 2 s) \<noteq> CHR ''0'' \<and>
      parse_hex 0 (drop 2 s) = Some (unat (0xDEADBEEF :: 64 word))) \<and>
   (\<exists>b q. simple_ptr_to_hex 0 (replicate 19 None) 19 = Inr (b, q) \<and> c_str b q = Inr ''0x0'')"
  using C7_ptr_to_hex_text [of "replicate 19 None" "0xDEADBEEF"]
    C7_ptr_to_hex_text [of "replicate 19 None" 0]
  by auto

subsection \<open>Claim C8\<close>

text \<open>
  C8 (as amended). For every timestamp whose value narrowed to 32 bits is not
  \<open>INT32_MIN\<close>, with a valid destination and a frame array that has \<open>frame_count\<close>
  entries: whatever the results of the writes are, the third string passed to \<open>write\<close>
  is the label \<open>\nTimestamp: \<close> and the fourth is the signed decimal text of the timestamp
  reduced modulo \<open>2 ^ 32\<close> and read as a signed 32-bit value; when every write succeeds
  in full, the text added to the destination starts with the signal line followed by
  that label and that text.
\<close>

theorem C8_timestamp_narrowed:
  assumes "0 \<le> fd" "sint fc \<le> int (length frames)" "narrow32 ts \<noteq> - (2 ^ 31)"
  shows "\<exists>ret s' new. write_minimal_crash_info_c fd sig ts tid frames fc s = Inr (ret, s') \<and>
           log s' = log s @ new \<and> 4 \<le> length new \<and>
           fst (new ! 2) = ''\<newline>Timestamp: '' \<and>
           fst (new ! 3) = dec_int (narrow32 ts) \<and>
           ((\<forall>k. behaviour s k = Full) \<longrightarrow>
              (\<exists>rest. emitted new =
                 ''Signal: '' @ i32_text sig @ ''\<newline>Timestamp: '' @ dec_int (narrow32 ts) @
                 ''\<newline>ThreadID: '' @ rest))"
proof -
  have nm: "(ucast ts :: 32 word) \<noteq> INT32_MIN" using assms(3) by (simp add: narrow_min)
  have tx: "i32_text (ucast ts) = dec_int (narrow32 ts)"
    using i32_text_eq [OF nm] by (simp add: sint_narrow)
  obtain new k s' where n:
      "write_minimal_crash_info_c fd sig ts tid frames fc s =
         Inr (if 0 < gain new then gain new else - 1, s')"
      "log s' = log s @ new"
      "map fst new = header_pieces sig ts tid fc @
                     concat (map frame_pieces (take k frames)) @ [end_marker]"
    using composer_log [OF assms(1,2), of sig ts tid s] by blast
  have l: "4 \<le> length new"
    using arg_cong [OF n(3), of length] by (simp add: header_pieces_def)
  have "map fst new ! 2 = ''\<newline>Timestamp: ''" "map fst new ! 3 = dec_int (narrow32 ts)"
    unfolding n(3) by (simp_all add: header_pieces_def tx)
  then have f: "fst (new ! 2) = ''\<newline>Timestamp: ''" "fst (new ! 3) = dec_int (narrow32 ts)"
    using l by simp_all
  have full: "\<exists>rest. emitted new =
        ''Signal: '' @ i32_text sig @ ''\<newline>Timestamp: '' @ dec_int (narrow32 ts) @
        ''\<newline>ThreadID: '' @ rest"
    if b: "\<forall>k. behaviour s k = Full"
    unfolding composer_full_emitted(1) [OF b assms(1,2) n(1,2)] n(3)
    by (simp add: header_pieces_def tx)
  show ?thesis
    using n(1,2) l f full by blast
qed

theorem C8_witness:
  "\<exists>ret s' new.
     write_minimal_crash_info_c 3 11 0x180000001 1 [] 0 ideal_sink = Inr (ret, s') \<and>
     log s' = log ideal_sink @ new \<and> 4 \<le> length new \<and>
     fst (new ! 2) = ''\<newline>Timestamp: '' \<and>
     fst (new ! 3) = ''-2147483647'' \<and>
     (\<exists>rest. emitted new =
        ''Signal: '' @ i32_text 11 @ ''\<newline>Timestamp: '' @ ''-2147483647'' @
        ''\<newline>ThreadID: '' @ rest)"
proof -
  have n: "narrow32 0x180000001 = - 2147483647" by (simp add: narrow32_def)
  have d: "dec_int (- 2147483647) = ''-2147483647''"
    by (simp add: dec_int_def dec_nat.simps digit_chars)
  have 1: "(0::int) \<le> 3" by simp
  have 2: "sint (0 :: 32 word) \<le> int (length ([] :: uintptr_t list))" by simp
  have 3: "narrow32 0x180000001 \<noteq> - (2 ^ 31)" by (simp add: n)
  have 4: "\<forall>k. behaviour ideal_sink k = Full" by (simp add: ideal_sink_def)
  from C8_timestamp_narrowed [OF 1 2 3, of 11 1 ideal_sink]
  obtain ret s' new where
      r: "write_minimal_crash_info_c 3 11 0x180000001 1 [] 0 ideal_sink = Inr (ret, s')"
      "log s' = log ideal_sink @ new" "4 \<le> length new"
      "fst (new ! 2) = ''\<newline>Timestamp: ''"
      "fst (new ! 3) = ''-2147483647''"
    and e: "(\<forall>k. behaviour ideal_sink k = Full) \<longrightarrow>
        (\<exists>rest. emitted new =
           ''Signal: '' @ i32_text 11 @ ''\<newline>Timestamp: '' @ ''-2147483647'' @
           ''\<newline>ThreadID: '' @ rest)"
    unfolding n d by (elim conjE exE) (rule that)
  have "\<exists>rest. emitted new =
        ''Signal: '' @ i32_text 11 @ ''\<newline>Timestamp: '' @ ''-2147483647'' @
        ''\<newline>ThreadID: '' @ rest"
    using e 4 by simp
  then show ?thesis
    using r by (intro conjI exI [of _ ret] exI [of _ s'] exI [of _ new])
qed

text \<open>
  C8 as stated fails for a timestamp that narrows to \<open>INT32_MIN\<close>, for instance \<open>2 ^ 31\<close>:
  the signed decimal text of the narrowed value is \<open>-2147483648\<close>, and the string written
  for the Timestamp field is \<open>-\<close>.
\<close>

theorem C8_counterexample:
  "requested (write_minimal_crash_info_c 3 11 0x80000000 1 [] 0 ideal_sink) ! 2 = ''\<newline>Timestamp: '' \<and>
   requested (write_minimal_crash_info_c 3 11 0x80000000 1 [] 0 ideal_sink) ! 3 = ''-'' \<and>
   dec_int (narrow32 0x80000000) = ''-2147483648''"
proof -
  have "requested (write_minimal_crash_info_c 3 11 0x80000000 1 [] 0 ideal_sink) =
      header_pieces 11 0x80000000 1 0 @ [end_marker]"
    by (rule composer_ideal) simp
  moreover have "header_pieces 11 0x80000000 1 0 ! 2 = ''\<newline>Timestamp: ''"
    unfolding header_pieces_def by simp
  moreover have "header_pieces 11 0x80000000 1 0 ! 3 = ''-''"
    unfolding header_pieces_def example_min(1) i32_text_min by simp
  moreover have "length (header_pieces 11 0x80000000 1 0) = 9"
    unfolding header_pieces_def by simp
  ultimately show ?thesis
    by (simp add: nth_append example_min(3,5))
qed

subsection \<open>Claim C9\<close>

text \<open>
  C9. For every 32-bit value except \<open>INT32_MIN\<close>, \<open>minimal_itoa_for_signals\<close> and
  \<open>simple_itoa\<close>, each with a buffer of 12 bytes, leave the same null-terminated text:
  the first at the start of its buffer, the second at the pointer it returns.
\<close>

theorem C9_converters_agree:
  "v \<noteq> INT32_MIN \<Longrightarrow> length b1 = 12 \<Longrightarrow> length b2 = 12 \<Longrightarrow>
   \<exists>m e b q s. minimal_itoa_for_signals v b1 12 = Inr (m, e) \<and>
     simple_itoa v b2 12 = Inr (b, q) \<and> c_str m 0 = Inr s \<and> c_str b q = Inr s"
  using minimal_itoa_string [of b1 v] simple_itoa_string [of b2 v] by auto

theorem C9_witness:
  "\<exists>m e b q s. minimal_itoa_for_signals (- 2147483647) (replicate 12 None) 12 = Inr (m, e) \<and>
     simple_itoa (- 2147483647) (replicate 12 None) 12 = Inr (b, q) \<and>
     c_str m 0 = Inr s \<and> c_str b q = Inr s"
  using C9_converters_agree [of "- 2147483647" "replicate 12 None" "replicate 12 None"]
  by (simp add: INT32_MIN_def)

subsection \<open>Claim C10\<close>

text \<open>
  C10 (as amended). For every \<open>frame_count \<le> 0\<close> and a valid destination, whatever the
  frame array is and whatever the results of the writes are: the call has the same
  outcome as with an empty frame array (no frame is read), and the strings passed to
  \<open>write\<close> are exactly the four labels with their values, the line
  \<open>Frames (raw addresses):\<close> and the end marker, with no frame line; the value written
  after \<open>Frames_count: \<close> is the signed decimal text of the count unless the count is
  \<open>INT32_MIN\<close>.
\<close>

theorem C10_no_frames:
  assumes "0 \<le> fd" "sint fc \<le> 0"
  shows "write_minimal_crash_info_c fd sig ts tid frames fc s =
           write_minimal_crash_info_c fd sig ts tid [] fc s \<and>
         (\<exists>ret s' new.
            write_minimal_crash_info_c fd sig ts tid frames fc s = Inr (ret, s') \<and>
            log s' = log s @ new \<and>
            map fst new =
              [''Signal: '', i32_text sig,
               ''\<newline>Timestamp: '', i32_text (ucast ts),
               ''\<newline>ThreadID: '', u64_text tid,
               ''\<newline>Frames_count: '', i32_text fc,
               ''\<newline>Frames (raw addresses):\<newline>'',
               ''--- C Minimal Report End ---\<newline>''] \<and>
            (fc \<noteq> INT32_MIN \<longrightarrow> i32_text fc = dec_int (sint fc)) \<and>
            ((\<forall>k. behaviour s k = Full) \<longrightarrow> emitted new = concat (map fst new)))"
proof -
  have noloop: "frames_loop fd fs (sint fc) 0 st = Inr st" for fs st
    using assms(2) by (intro frames_loop_done) simp
  have same: "write_minimal_crash_info_c fd sig ts tid frames fc s =
           write_minimal_crash_info_c fd sig ts tid [] fc s"
    unfolding composer_eq [OF assms(1)] noloop ..
  have len: "sint fc \<le> int (length frames)" using assms(2) by simp
  obtain new k s' where n:
      "write_minimal_crash_info_c fd sig ts tid frames fc s =
         Inr (if 0 < gain new then gain new else - 1, s')"
      "log s' = log s @ new"
      "map fst new = header_pieces sig ts tid fc @
                     concat (map frame_pieces (take k frames)) @ [end_marker]"
      "int k \<le> max (sint fc) 0"
    using composer_log [OF assms(1) len, of sig ts tid s] by blast
  have "k = 0" using n(4) assms(2) by simp
  then have "map fst new =
              [''Signal: '', i32_text sig,
               ''\<newline>Timestamp: '', i32_text (ucast ts),
               ''\<newline>ThreadID: '', u64_text tid,
               ''\<newline>Frames_count: '', i32_text fc,
               ''\<newline>Frames (raw addresses):\<newline>'',
               ''--- C Minimal Report End ---\<newline>'']"
    using n(3) by (simp add: header_pieces_def end_marker_def)
  moreover have "fc \<noteq> INT32_MIN \<longrightarrow> i32_text fc = dec_int (sint fc)"
    using i32_text_eq [of fc] by simp
  moreover have "(\<forall>k. behaviour s k = Full) \<longrightarrow> emitted new = concat (map fst new)"
    using composer_full_emitted(1) [OF _ assms(1) len n(1,2)] by blast
  ultimately have "\<exists>ret s' new.
            write_minimal_crash_info_c fd sig ts tid frames fc s = Inr (ret, s') \<and>
            log s' = log s @ new \<and>
            map fst new =
              [''Signal: '', i32_text sig,
               ''\<newline>Timestamp: '', i32_text (ucast ts),
               ''\<newline>ThreadID: '', u64_text tid,
               ''\<newline>Frames_count: '', i32_text fc,
               ''\<newline>Frames (raw addresses):\<newline>'',
               ''--- C Minimal Report End ---\<newline>''] \<and>
            (fc \<noteq> INT32_MIN \<longrightarrow> i32_text fc = dec_int (sint fc)) \<and>
            ((\<forall>k. behaviour s k = Full) \<longrightarrow> emitted new = concat (map fst new))"
    using n(1,2) by (intro exI [of _ "if 0 < gain new then gain new else - 1"]
        exI [of _ s'] exI [of _ new]) simp
  with same show ?thesis by (rule conjI)
qed

theorem C10_witness:
  "write_minimal_crash_info_c 3 11 1700000000 1 [0xDEADBEEF, 0] (- 5) ideal_sink =
     write_minimal_crash_info_c 3 11 1700000000 1 [] (- 5) ideal_sink \<and>
   (\<exists>ret s' new.
      write_minimal_crash_info_c 3 11 1700000000 1 [0xDEADBEEF, 0] (- 5) ideal_sink = Inr (ret, s') \<and>
      log s' = log ideal_sink @ new \<and>
      map fst new =
        [''Signal: '', i32_text 11,
         ''\<newline>Timestamp: '', i32_text (ucast (1700000000 :: 64 word)),
         ''\<newline>ThreadID: '', u64_text 1,
         ''\<newline>Frames_count: '', i32_text (- 5),
         ''\<newline>Frames (raw addresses):\<newline>'',
         ''--- C Minimal Report End ---\<newline>''] \<and>
      i32_text (- 5) = ''-5'' \<and>
      emitted new = concat (map fst new))"
proof -
  have 1: "(0::int) \<le> 3" by simp
  have 2: "sint (- 5 :: 32 word) \<le> 0" by simp
  have 3: "(- 5 :: 32 word) \<noteq> INT32_MIN" by (simp add: INT32_MIN_def)
  have 4: "\<forall>k. behaviour ideal_sink k = Full" by (simp add: ideal_sink_def)
  have d: "dec_int (sint (- 5 :: 32 word)) = ''-5''"
    by (simp add: dec_int_def dec_nat.simps digit_chars)
  from C10_no_frames [OF 1 2, of 11 1700000000 1 "[0xDEADBEEF, 0]" ideal_sink]
  obtain ret s' new where same:
      "write_minimal_crash_info_c 3 11 1700000000 1 [0xDEADBEEF, 0] (- 5) ideal_sink =
       write_minimal_crash_info_c 3 11 1700000000 1 [] (- 5) ideal_sink"
    and r: "write_minimal_crash_info_c 3 11 1700000000 1 [0xDEADBEEF, 0] (- 5) ideal_sink =
       Inr (ret, s')"
      "log s' = log ideal_sink @ new"
      "map fst new =
        [''Signal: '', i32_text 11,
         ''\<newline>Timestamp: '', i32_text (ucast (1700000000 :: 64 word)),
         ''\<newline>ThreadID: '', u64_text 1,
         ''\<newline>Frames_count: '', i32_text (- 5),
         ''\<newline>Frames (raw addresses):\<newline>'',
         ''--- C Minimal Report End ---\<newline>'']"
    and f: "(- 5 :: 32 word) \<noteq> INT32_MIN \<longrightarrow> i32_text (- 5) = dec_int (sint (- 5 :: 32 word))"
    and e: "(\<forall>k. behaviour ideal_sink k = Full) \<longrightarrow> emitted new = concat (map fst new)"
    by (elim conjE exE) (rule that)
  have "i32_text (- 5) = ''-5''" using f 3 d by simp
  moreover have "emitted new = concat (map fst new)" using e 4 by simp
  ultimately show ?thesis
    using same r by (intro conjI exI [of _ ret] exI [of _ s'] exI [of _ new])
qed

text \<open>
  C10 as stated fails for \<open>frame_count = INT32_MIN\<close>: the string written for the
  Frames_count field is \<open>-\<close>, not the decimal text \<open>-2147483648\<close> of the count.
\<close>

theorem C10_counterexample:
  "requested (write_minimal_crash_info_c 3 11 5 1 [] (- 2147483648) ideal_sink) ! 6 =
     ''\<newline>Frames_count: '' \<and>
   requested (write_minimal_crash_info_c 3 11 5 1 [] (- 2147483648) ideal_sink) ! 7 = ''-'' \<and>
   dec_int (sint (- 2147483648 :: 32 word)) = ''-2147483648''"
proof -
  have "requested (write_minimal_crash_info_c 3 11 5 1 [] (- 2147483648) ideal_sink) =
      header_pieces 11 5 1 (- 2147483648) @ [end_marker]"
    by (rule composer_ideal) simp
  moreover have "header_pieces 11 5 1 (- 2147483648) ! 6 = ''\<newline>Frames_count: ''"
    unfolding header_pieces_def by simp
  moreover have "header_pieces 11 5 1 (- 2147483648) ! 7 = ''-''"
    unfolding header_pieces_def example_min(2) i32_text_min by simp
  moreover have "length (header_pieces 11 5 1 (- 2147483648)) = 9"
    unfolding header_pieces_def by simp
  moreover have "dec_int (sint (- 2147483648 :: 32 word)) = ''-2147483648''"
    unfolding example_min(4) by (rule example_min(5))
  ultimately show ?thesis
    by (simp only: nth_append) simp
qed

end
